theory Spec2Isabelle
  imports Complex_Main
begin

section \<open>Numbers and strings of the host language\<close>

text \<open>
  A JavaScript number is modelled as an exact rational, or one of the three special
  values.  Arithmetic on finite values is exact and a number is printed with all the
  digits of its decimal expansion: the rounding of IEEE doubles is not part of the
  model, and the negative zero is the rational zero.  The host computes what the model
  computes where its own arithmetic is exact, that is on integers below \<open>2^53\<close> and on
  the doubles that \<open>String\<close> prints with all their digits (\<open>printsExactly\<close> below);
  the properties that depend on the value of the printed digits of a fraction, or on
  the exact sum of an exponent and the bias, are stated under these conditions.
\<close>

datatype number = NaN | PosInfinity | NegInfinity | Finite rat

text \<open>\<open>Math.pow(2, x)\<close>; the code reaches it at integer \<open>x\<close> only.\<close>

definition pow2 :: "rat \<Rightarrow> rat" where
  "pow2 x = (if 0 \<le> \<lfloor>x\<rfloor> then 2 ^ nat \<lfloor>x\<rfloor> else 1 / 2 ^ nat (- \<lfloor>x\<rfloor>))"

text \<open>\<open>s.substring(a, b)\<close>: both indices are clamped to the length, and swapped when
  the first is the larger.\<close>

definition substring :: "string \<Rightarrow> nat \<Rightarrow> nat \<Rightarrow> string" where
  "substring s a b =
     (let a' = min a (length s); b' = min b (length s);
          lo = min a' b'; hi = max a' b'
      in take (hi - lo) (drop lo s))"

text \<open>\<open>parseInt(s, 2)\<close> on a string of binary digits: \<open>None\<close> is NaN (no digit).\<close>

definition binDigit :: "char \<Rightarrow> int" where
  "binDigit c = (if c = CHR ''1'' then 1 else 0)"

definition parseInt2 :: "string \<Rightarrow> int option" where
  "parseInt2 s = (if s = [] then None else Some (foldl (\<lambda>a c. 2 * a + binDigit c) 0 s))"

section \<open>Printing and parsing numbers\<close>

text \<open>
  A call either returns or fails to: \<open>Diverges\<close> is a loop that never ends, and
  \<open>NotDecimal\<close> a number without a finite decimal expansion, which is no double and
  which the printing below does not cover.
\<close>

datatype failure = Diverges | NotDecimal

definition digitChar :: "nat \<Rightarrow> char" where
  "digitChar n = char_of (48 + n)"

definition isDigit :: "char \<Rightarrow> bool" where
  "isDigit c = (48 \<le> (of_char c :: nat) \<and> (of_char c :: nat) \<le> 57)"

definition digitVal :: "char \<Rightarrow> nat" where
  "digitVal c = (of_char c :: nat) - 48"

function showNat :: "int \<Rightarrow> string" where
  "showNat n =
     (if n < 10 then [digitChar (nat n)]
      else showNat (n div 10) @ [digitChar (nat (n mod 10))])"
  by pat_completeness auto
termination
  by (relation "measure nat") auto

declare showNat.simps [simp del]

definition parseNat :: "string \<Rightarrow> int" where
  "parseNat s = foldl (\<lambda>a c. 10 * a + int (digitVal c)) 0 s"

text \<open>The decimal digits of a fraction in \<open>[0, 1)\<close>, up to a bound no double reaches.\<close>

fun fracDigits :: "nat \<Rightarrow> rat \<Rightarrow> failure + string" where
  "fracDigits fuel x =
     (if x = 0 then Inr []
      else case fuel of
        0 \<Rightarrow> Inl NotDecimal
      | Suc k \<Rightarrow>
          (case fracDigits k (10 * x - of_int \<lfloor>10 * x\<rfloor>) of
             Inl e \<Rightarrow> Inl e
           | Inr ds \<Rightarrow> Inr (digitChar (nat \<lfloor>10 * x\<rfloor>) # ds)))"

declare fracDigits.simps [simp del]

definition stripTrailingZeros :: "string \<Rightarrow> string" where
  "stripTrailingZeros s = rev (dropWhile (\<lambda>c. c = CHR ''0'') (rev s))"

definition mantissaForm :: "string \<Rightarrow> string" where
  "mantissaForm s = (case s of [] \<Rightarrow> [] | [c] \<Rightarrow> [c] | c # cs \<Rightarrow> c # CHR ''.'' # cs)"

text \<open>
  \<open>String(x)\<close> of a positive number: plain notation from \<open>10^-6\<close> up to \<open>10^21\<close>,
  exponential notation outside.  The digits are those of the exact decimal expansion of
  \<open>x\<close>.  The host prints the shortest decimal that reads back as the same double, of at
  most 17 significant digits.  That is the exact expansion when no decimal of fewer
  digits is as near to \<open>x\<close> as half the gap between neighbouring doubles
  (\<open>printsExactly\<close> below; every double of at most 15 significant digits is of this
  kind); otherwise it is a shorter decimal, and there the host prints fewer digits than
  this definition: \<open>1 + 2^-17\<close> is printed as \<open>1.0000076293945312\<close> by the host and as
  \<open>1.00000762939453125\<close> here.
\<close>

definition positiveToString :: "rat \<Rightarrow> failure + string" where
  "positiveToString x =
     (let ip = showNat \<lfloor>x\<rfloor> in
      case fracDigits 1100 (x - of_int \<lfloor>x\<rfloor>) of
        Inl e \<Rightarrow> Inl e
      | Inr fd \<Rightarrow>
          if 10 ^ 21 \<le> x then
            Inr (mantissaForm (stripTrailingZeros (ip @ fd)) @ ''e+'' @ showNat (int (length ip) - 1))
          else if 1 / 10 ^ 6 \<le> x then
            Inr (ip @ (if fd = [] then [] else CHR ''.'' # fd))
          else
            Inr (mantissaForm (dropWhile (\<lambda>c. c = CHR ''0'') fd) @ ''e-''
                 @ showNat (int (length (takeWhile (\<lambda>c. c = CHR ''0'') fd)) + 1)))"

definition numberToString :: "rat \<Rightarrow> failure + string" where
  "numberToString x =
     (if x = 0 then Inr ''0''
      else if x < 0 then
        (case positiveToString (- x) of Inl e \<Rightarrow> Inl e | Inr s \<Rightarrow> Inr (CHR ''-'' # s))
      else positiveToString x)"

text \<open>\<open>s.split(sep)\<close> for a separator of one character.\<close>

fun splitOn :: "(char \<Rightarrow> bool) \<Rightarrow> string \<Rightarrow> string list" where
  "splitOn p [] = [ [] ]"
| "splitOn p (c # cs) =
     (if p c then [] # splitOn p cs
      else case splitOn p cs of [] \<Rightarrow> [ [c] ] | x # xs \<Rightarrow> (c # x) # xs)"

text \<open>\<open>Number(s)\<close> on an optionally signed string of digits; \<open>None\<close> is NaN.\<close>

definition numberOfInteger :: "string \<Rightarrow> int option" where
  "numberOfInteger s =
     (case s of
        [] \<Rightarrow> Some 0
      | c # cs \<Rightarrow>
          if c = CHR ''-'' \<and> cs \<noteq> [] \<and> list_all isDigit cs then Some (- parseNat cs)
          else if c = CHR ''+'' \<and> cs \<noteq> [] \<and> list_all isDigit cs then Some (parseNat cs)
          else if list_all isDigit s then Some (parseNat s)
          else None)"

text \<open>\<open>Number(`0.${dec}`)\<close>, where \<open>dec\<close> may be undefined; \<open>None\<close> is NaN.\<close>

definition numberOfFraction :: "string option \<Rightarrow> rat option" where
  "numberOfFraction dec =
     (case dec of
        None \<Rightarrow> None
      | Some ds \<Rightarrow>
          if list_all isDigit ds then Some (of_int (parseNat ds) / 10 ^ length ds) else None)"

text \<open>\<open>parseInt(s)\<close>: the leading digits of the string, after an optional sign.\<close>

definition parseInt :: "string \<Rightarrow> int option" where
  "parseInt s =
     (let neg = (s \<noteq> [] \<and> hd s = CHR ''-'');
          body = (if s \<noteq> [] \<and> (hd s = CHR ''-'' \<or> hd s = CHR ''+'') then tl s else s);
          ds = takeWhile isDigit body
      in if ds = [] then None
         else Some (if neg then - parseNat ds else parseNat ds))"

text \<open>The string a number of an array contributes to \<open>join("")\<close>.\<close>

definition joinedInt :: "int option \<Rightarrow> string" where
  "joinedInt v =
     (case v of
        None \<Rightarrow> ''NaN''
      | Some k \<Rightarrow> if k < 0 then CHR ''-'' # showNat (- k) else showNat k)"

text \<open>\<open>c.repeat(Math.max(0, x))\<close>: the count is truncated to an integer.\<close>

definition repeatMax0 :: "char \<Rightarrow> rat \<Rightarrow> string" where
  "repeatMax0 c x = replicate (nat \<lfloor>max 0 x\<rfloor>) c"

section \<open>The format descriptor\<close>

record Float =
  expBits :: nat
  mantBits :: nat
  totalBits :: nat
  bias :: rat
  maxAbs :: rat

text \<open>The constructor performs no validation; with no exponent bit the bias is \<open>-1/2\<close>.\<close>

definition constructor :: "nat \<Rightarrow> nat \<Rightarrow> Float" where
  "constructor exponent mantissa =
     \<lparr> expBits = exponent,
       mantBits = mantissa,
       totalBits = 1 + exponent + mantissa,
       bias = pow2 (of_nat exponent - 1) - 1,
       maxAbs = pow2 (of_nat (1 + exponent + mantissa) - 1) - 1 \<rparr>"

text \<open>Construction seen as a fallible operation: the source has no failing path.\<close>

datatype error = InvalidLayout

definition createDescriptor :: "nat \<Rightarrow> nat \<Rightarrow> error + Float" where
  "createDescriptor exponent mantissa = Inr (constructor exponent mantissa)"

section \<open>Encoding\<close>

text \<open>\<open>while (mag++) z += '0'\<close> and \<open>while (mag--) z += '0'\<close>: each ends when it
  meets zero, and never when it starts on the far side of it.\<close>

function zerosUp :: "int \<Rightarrow> string \<Rightarrow> failure + string" where
  "zerosUp mag z =
     (if mag = 0 then Inr z
      else if 0 < mag then Inl Diverges
      else zerosUp (mag + 1) (z @ ''0''))"
  by pat_completeness auto
termination
  by (relation "measure (\<lambda>(mag, z). nat (- mag))") auto

function zerosDown :: "int \<Rightarrow> string \<Rightarrow> failure + string" where
  "zerosDown mag z =
     (if mag = 0 then Inr z
      else if mag < 0 then Inl Diverges
      else zerosDown (mag - 1) (z @ ''0''))"
  by pat_completeness auto
termination
  by (relation "measure (\<lambda>(mag, z). nat mag)") auto

declare zerosUp.simps [simp del] zerosDown.simps [simp del]

text \<open>\<open>str.replace('.', '')\<close> and \<open>str.replace(/^\-/, '')\<close>.\<close>

definition removeFirstDot :: "string \<Rightarrow> string" where
  "removeFirstDot s =
     takeWhile (\<lambda>c. c \<noteq> CHR ''.'') s @ drop 1 (dropWhile (\<lambda>c. c \<noteq> CHR ''.'') s)"

definition removeLeadingMinus :: "string \<Rightarrow> string" where
  "removeLeadingMinus s = (case s of [] \<Rightarrow> [] | c # cs \<Rightarrow> if c = CHR ''-'' then cs else s)"

definition unexponentiate :: "rat \<Rightarrow> failure + string" where
  "unexponentiate num =
     (case numberToString num of
        Inl e \<Rightarrow> Inl e
      | Inr printed \<Rightarrow>
          let data = splitOn (\<lambda>c. c = CHR ''e'' \<or> c = CHR ''E'') printed in
          if length data = 1 then Inr (data ! 0)
          else
            let sign = (if num < 0 then ''-'' else []);
                str = removeFirstDot (data ! 0)
            in case numberOfInteger (data ! 1) of
                 None \<Rightarrow> Inr str
               | Some k \<Rightarrow>
                   let mag = k + 1 in
                   if mag < 0 then
                     (case zerosUp mag (sign @ ''0.'') of
                        Inl e \<Rightarrow> Inl e
                      | Inr z \<Rightarrow> Inr (z @ removeLeadingMinus str))
                   else
                     (case zerosDown (mag - int (length str)) [] of
                        Inl e \<Rightarrow> Inl e
                      | Inr z \<Rightarrow> Inr (str @ z)))"

text \<open>
  \<open>_toBinaryInt\<close>: the remainders of the division by two, joined from the last to the
  first.  After the first step \<open>n\<close> is a natural number, and \<open>parseInt(n) > 0\<close> holds
  exactly when \<open>n\<close> is positive.
\<close>

function toBinaryIntLoop :: "rat \<Rightarrow> string list \<Rightarrow> failure + string list" where
  "toBinaryIntLoop n bits =
     (case numberToString (n - 2 * of_int \<lfloor>n / 2\<rfloor>) of
        Inl e \<Rightarrow> Inl e
      | Inr d \<Rightarrow>
          if 0 < \<lfloor>n / 2\<rfloor> then toBinaryIntLoop (of_int \<lfloor>n / 2\<rfloor>) (bits @ [d])
          else Inr (bits @ [d]))"
  by pat_completeness auto
termination
proof (relation "measure (\<lambda>(n, bits). nat \<lfloor>n\<rfloor>)")
  show "wf (measure (\<lambda>(n :: rat, bits :: string list). nat \<lfloor>n\<rfloor>))" by simp
next
  fix n :: rat and bits :: "string list" and d :: string
  assume "0 < \<lfloor>n / 2\<rfloor>"
  then have "2 \<le> n" by linarith
  then have "\<lfloor>n / 2\<rfloor> < \<lfloor>n\<rfloor>" by linarith
  then show "((rat_of_int \<lfloor>n / 2\<rfloor>, bits @ [d]), (n, bits)) \<in> measure (\<lambda>(n, bits). nat \<lfloor>n\<rfloor>)"
    using \<open>0 < \<lfloor>n / 2\<rfloor>\<close> by simp
qed

declare toBinaryIntLoop.simps [simp del]

definition toBinaryInt :: "rat \<Rightarrow> failure + string" where
  "toBinaryInt num =
     (case toBinaryIntLoop \<bar>num\<bar> [] of
        Inl e \<Rightarrow> Inl e
      | Inr bits \<Rightarrow> Inr (concat (rev bits)))"

text \<open>The loop of the fractional bits; \<open>decN\<close> is \<open>None\<close> when it is NaN.\<close>

function decLoop :: "Float \<Rightarrow> nat \<Rightarrow> rat option \<Rightarrow> string list \<Rightarrow> failure + string list" where
  "decLoop f iters decN decBits =
     (case decN of
        None \<Rightarrow> Inr decBits
      | Some x \<Rightarrow>
          if iters \<le> totalBits f \<and> 0 < x then
            (let nn = x * 2 in
             case unexponentiate nn of
               Inl e \<Rightarrow> Inl e
             | Inr s \<Rightarrow>
                 let parts = splitOn (\<lambda>c. c = CHR ''.'') s;
                     dec = (if 1 < length parts then Some (parts ! 1) else None)
                 in decLoop f (iters + 1) (numberOfFraction dec)
                      (decBits @ [joinedInt (parseInt s)]))
          else Inr decBits)"
  by pat_completeness auto
termination
  by (relation "measure (\<lambda>(f, iters, decN, decBits). totalBits f + 1 - iters)") auto

declare decLoop.simps [simp del]

text \<open>The running remainder of that loop, read off its body: \<open>decNext x\<close> is the value
  the body assigns to \<open>decN\<close> when it runs with \<open>decN = x\<close>, \<open>decGuard\<close> is the test
  \<open>decN > 0\<close> of the loop condition, and \<open>decState i d\<close> is \<open>decN\<close> after \<open>i\<close> iterations
  started with \<open>d\<close>, for as long as the counter lets the loop run.\<close>

definition decNext :: "rat \<Rightarrow> failure + rat option" where
  "decNext x =
     (case unexponentiate (x * 2) of
        Inl e \<Rightarrow> Inl e
      | Inr s \<Rightarrow>
          let parts = splitOn (\<lambda>c. c = CHR ''.'') s;
              dec = (if 1 < length parts then Some (parts ! 1) else None)
          in Inr (numberOfFraction dec))"

fun decState :: "nat \<Rightarrow> rat option \<Rightarrow> failure + rat option" where
  "decState 0 d = Inr d"
| "decState (Suc i) d =
     (case d of
        None \<Rightarrow> Inr None
      | Some x \<Rightarrow>
          if 0 < x then (case decNext x of Inl e \<Rightarrow> Inl e | Inr d' \<Rightarrow> decState i d')
          else Inr d)"

definition decGuard :: "rat option \<Rightarrow> bool" where
  "decGuard d = (case d of None \<Rightarrow> False | Some x \<Rightarrow> 0 < x)"

text \<open>The carry loop of the rounding, over the reversed retained bits.  A character
  that is no digit parses to NaN, which matches no case of the \<open>switch\<close>: the loop goes
  on to the next bit, and with such a \<open>lsb\<close> it changes nothing at all.\<close>

fun roundLoop :: "nat \<Rightarrow> nat \<Rightarrow> string \<Rightarrow> string" where
  "roundLoop sumBit carry [] = []"
| "roundLoop sumBit carry (c # cs) =
     (if \<not> isDigit c then c # roundLoop sumBit carry cs
      else if digitVal c + sumBit = 0 then digitChar carry # cs
      else if digitVal c + sumBit = 1 then (if carry \<noteq> 0 then CHR ''0'' # cs else CHR ''1'' # cs)
      else if digitVal c + sumBit = 2 then
        (if carry \<noteq> 0 then CHR ''1'' else c) # roundLoop sumBit 1 cs
      else c # roundLoop sumBit carry cs)"

definition toBinaryMantissa ::
  "Float \<Rightarrow> rat \<Rightarrow> bool \<Rightarrow> rat \<Rightarrow> bool \<Rightarrow> string \<Rightarrow> string" where
  "toBinaryMantissa f num rounding exp1 isInf normalizedData =
     (if isInf \<or> \<bar>num\<bar> > maxAbs f then replicate (mantBits f) CHR ''0''
      else
        let skip = (if 0 < exp1 then 1 else 0 :: nat) in
        if length normalizedData \<le> mantBits f then
          (let data = substring normalizedData skip (mantBits f)
           in data @ repeatMax0 CHR ''0'' (of_nat (mantBits f) - of_nat (length data)))
        else
          (let data0 = substring normalizedData skip (mantBits f + skip);
               data =
                 (if rounding then
                    (let lsb = (if mantBits f + 1 < length normalizedData
                                then normalizedData ! (mantBits f + 1) else CHR ''0'')
                     in if isDigit lsb then rev (roundLoop (digitVal lsb) 0 (rev data0))
                        else data0)
                  else data0)
           in data @ repeatMax0 CHR ''0'' (of_nat (mantBits f) - of_nat (length data))))"

text \<open>The encoder from the binary digits of the two parts on; \<open>exp0\<close> is the \<open>_exp\<close> of the
  source and \<open>exp1\<close> its \<open>exp\<close>.\<close>

definition toBinaryFields :: "Float \<Rightarrow> rat \<Rightarrow> bool \<Rightarrow> string \<Rightarrow> string \<Rightarrow> failure + string" where
  "toBinaryFields f num rounding intBits decBits =
     (let signBit = (if 0 < num then ''0'' else ''1'');
          normIntBits = dropWhile (\<lambda>c. c = CHR ''0'') intBits;
          exp0 = (if CHR ''1'' \<in> set normIntBits then int (length normIntBits) - 1
                  else if CHR ''1'' \<in> set decBits
                    then - (int (length (takeWhile (\<lambda>c. c \<noteq> CHR ''1'') decBits)) + 1)
                  else 0);
          exp1 = (if of_int exp0 - bias f = 0 then 0 else of_int exp0 + bias f);
          payloadData = intBits @ decBits;
          normalizedData = dropWhile (\<lambda>c. c = CHR ''0'') payloadData
      in if exp1 < 0 then
           (let expField = replicate (expBits f) CHR ''0'';
                nexp = 1 - bias f;
                denExp = of_int exp0 - nexp;
                denormalizedData = repeatMax0 CHR ''0'' (- denExp - 1) @ normalizedData;
                mantField = substring denormalizedData 0 (mantBits f)
                  @ repeatMax0 CHR ''0'' (of_nat (mantBits f) - of_nat (length denormalizedData))
            in Inr (signBit @ expField @ mantField))
         else
           (case toBinaryInt exp1 of
              Inl e \<Rightarrow> Inl e
            | Inr expDigits \<Rightarrow>
                let padded = repeatMax0 CHR ''0'' (of_nat (expBits f) - of_nat (length expDigits))
                      @ expDigits;
                    isInf = (length padded > expBits f);
                    expField = (if isInf then replicate (expBits f) CHR ''1'' else padded);
                    mantField = toBinaryMantissa f num rounding exp1 isInf normalizedData
                in Inr (signBit @ expField @ mantField)))"

definition toBinary :: "Float \<Rightarrow> rat \<Rightarrow> bool \<Rightarrow> failure + string" where
  "toBinary f num rounding =
     (case unexponentiate num of
        Inl e \<Rightarrow> Inl e
      | Inr unum \<Rightarrow>
          let parts = splitOn (\<lambda>c. c = CHR ''.'') unum;
              dec = (if 1 < length parts then Some (parts ! 1) else None)
          in case (case numberOfInteger (parts ! 0) of
                     None \<Rightarrow> Inr ''NaN''
                   | Some k \<Rightarrow> toBinaryInt (of_int k)) of
               Inl e \<Rightarrow> Inl e
             | Inr intBits \<Rightarrow>
                 (case decLoop f 0 (map_option abs (numberOfFraction dec)) [] of
                    Inl e \<Rightarrow> Inl e
                  | Inr decBits \<Rightarrow> toBinaryFields f num rounding intBits (concat decBits)))"

section \<open>Decoding\<close>

text \<open>\<open>_binaryFracToDec\<close>: the sum of \<open>bits[i] * 2^-(i+1)\<close>, accumulated from index 0.\<close>

fun binaryFracLoop :: "string \<Rightarrow> nat \<Rightarrow> rat \<Rightarrow> rat" where
  "binaryFracLoop [] i num = num"
| "binaryFracLoop (b # bs) i num =
     binaryFracLoop bs (i + 1) (num + of_int (binDigit b) * pow2 (- (of_nat i + 1)))"

definition binaryFracToDec :: "string \<Rightarrow> rat" where
  "binaryFracToDec bits = binaryFracLoop bits 0 0"

definition signedInfinity :: "rat \<Rightarrow> number" where
  "signedInfinity sign = (if 0 < sign then PosInfinity else NegInfinity)"

definition toDecimal :: "Float \<Rightarrow> string \<Rightarrow> number" where
  "toDecimal f bits =
     (if length bits \<noteq> totalBits f then NaN
      else if \<exists>c \<in> set bits. c \<notin> {CHR ''0'', CHR ''1''} then NaN
      else
        let sign = (if parseInt2 (substring bits 0 1) = Some 0 then 1 else - 1 :: rat);
            rawExp = parseInt2 (substring bits 1 (1 + expBits f));
            mant = substring bits (1 + expBits f) (1 + expBits f + mantBits f)
        in case rawExp of
             None \<Rightarrow> NaN
           | Some r \<Rightarrow>
               if of_int r > bias f * 2 then
                 (if of_int r = bias f * 2 + 1 \<and> parseInt2 mant = Some 0
                  then signedInfinity sign else NaN)
               else if r = 0 then
                 Finite (sign * binaryFracToDec mant * pow2 (1 - bias f))
               else
                 Finite (sign * (1 + binaryFracToDec mant) * pow2 (of_int r - bias f)))"

section \<open>Reference notions\<close>

text \<open>
  The notions of this section are not part of the program: the properties are stated and
  proved with them.  \<open>hasPlaces j x\<close> says that \<open>x\<close> has a decimal expansion of at most
  \<open>j\<close> places, and \<open>plainDecimal n fd\<close> is the plain notation of the number with the
  integer part \<open>n\<close> and the fraction digits \<open>fd\<close>.
\<close>

definition hasPlaces :: "nat \<Rightarrow> rat \<Rightarrow> bool" where
  "hasPlaces j x = (\<exists>a :: int. x * 10 ^ j = of_int a)"

definition plainDecimal :: "int \<Rightarrow> string \<Rightarrow> string" where
  "plainDecimal n fd = showNat n @ (if fd = [] then [] else CHR ''.'' # fd)"

text \<open>
  \<open>printsExactly x\<close> says that the host prints \<open>x\<close> with all its digits.  Either \<open>x\<close> is
  zero, or \<open>x\<close> is a normal double (\<open>M\<close> units of \<open>2^(b - 52)\<close> in the binade of \<open>2^b\<close>)
  whose decimal expansion ends with the digit \<open>c mod 10\<close> at the place \<open>10^z\<close>, and that
  digit keeps every decimal of fewer significant digits farther from \<open>x\<close> than
  \<open>2^(b - 53)\<close>, half the gap between neighbouring doubles: no shorter decimal then reads
  back as \<open>x\<close>, and the shortest one that does is the expansion of \<open>x\<close> itself.  The
  digits of the fraction of such an \<open>x\<close>, and of its doubled remainders, are then printed
  exactly as well.
\<close>

definition printsExactly :: "rat \<Rightarrow> bool" where
  "printsExactly x =
     (x = 0 \<or> (\<exists>(c :: int) (z :: int) (b :: int) (M :: int).
        \<bar>x\<bar> = of_int c * 10 powi z \<and> 0 < c \<and> c mod 10 \<noteq> 0
      \<and> 2 powi b \<le> \<bar>x\<bar> \<and> \<bar>x\<bar> < 2 powi (b + 1) \<and> - 1022 \<le> b \<and> b \<le> 1023
      \<and> \<bar>x\<bar> = of_int M * 2 powi (b - 52)
      \<and> (2::rat) powi (b - 53) < of_int (min (c mod 10) (10 - c mod 10)) * 10 powi z))"

text \<open>The binary digits of a natural number, the least significant first; the first
  \<open>n\<close> binary digits of a fraction, up to the digit after which nothing is left; and the
  fraction that is left of \<open>x\<close> after \<open>i\<close> doublings.\<close>

fun lsbBits :: "nat \<Rightarrow> string" where
  "lsbBits n = (if n < 2 then [digitChar n] else digitChar (n mod 2) # lsbBits (n div 2))"

declare lsbBits.simps [simp del]

fun fracBits :: "nat \<Rightarrow> rat \<Rightarrow> string" where
  "fracBits 0 x = []"
| "fracBits (Suc n) x =
     (if 0 < x then digitChar (nat \<lfloor>2 * x\<rfloor>) # fracBits n (2 * x - of_int \<lfloor>2 * x\<rfloor>) else [])"

definition remainder :: "nat \<Rightarrow> rat \<Rightarrow> rat" where
  "remainder i x = 2 ^ i * x - of_int \<lfloor>2 ^ i * x\<rfloor>"

text \<open>The value of a string of binary digits, the magnitude the decoder assigns to a raw
  exponent and a mantissa value, and the mantissa field cut or padded to its width.\<close>

definition bval :: "string \<Rightarrow> int" where
  "bval s = foldl (\<lambda>a c. 2 * a + binDigit c) 0 s"




section \<open>Binary digit strings\<close>

lemma foldl_bin_zero:
  "foldl (\<lambda>a c. 2 * a + binDigit c) a (replicate n CHR ''0'') = 2 ^ n * a"
  by (induction n arbitrary: a) (simp_all add: binDigit_def)

lemma parseInt2_zeros: "parseInt2 (replicate n CHR ''0'') = (if n = 0 then None else Some 0)"
  by (simp add: parseInt2_def foldl_bin_zero)

lemma binaryFracLoop_zeros: "binaryFracLoop (replicate n CHR ''0'') i num = num"
  by (induction n arbitrary: i num) (simp_all add: binDigit_def)

lemma binaryFracToDec_zeros: "binaryFracToDec (replicate n CHR ''0'') = 0"
  by (simp add: binaryFracToDec_def binaryFracLoop_zeros)

lemma pow2_nat: "pow2 (of_nat n) = 2 ^ n"
  by (simp add: pow2_def)

lemma pow2_nat_minus1: "0 < n \<Longrightarrow> pow2 (of_nat n - 1) = 2 ^ (n - 1)"
proof -
  assume "0 < n"
  then have "(of_nat n - 1 :: rat) = of_nat (n - 1)" by (simp add: of_nat_diff)
  then show ?thesis by (simp only: pow2_nat)
qed

lemma bias_constructor: "0 < e \<Longrightarrow> bias (constructor e m) = 2 ^ (e - 1) - 1"
  by (simp add: constructor_def pow2_nat_minus1)

lemma bias_nonneg: "0 < e \<Longrightarrow> 0 \<le> bias (constructor e m)"
  by (simp add: bias_constructor)

lemma fields_constructor:
  "totalBits (constructor e m) = 1 + e + m"
  "expBits (constructor e m) = e"
  "mantBits (constructor e m) = m"
  by (simp_all add: constructor_def)

lemma substring_replicate:
  "substring (replicate n c) a b =
     replicate (max (min a n) (min b n) - min (min a n) (min b n)) c"
  by (auto simp add: substring_def Let_def min_def max_def)

lemma substring_0_1_Cons: "substring (x # s) 0 (Suc 0) = [x]"
  by (simp add: substring_def)

lemma substring_Suc_Suc: "substring (x # s) (Suc a) (Suc b) = substring s a b"
  by (simp add: substring_def Let_def min_def max_def)

section \<open>Printing, parsing and the front end of the encoder\<close>

lemma digitChar_props:
  assumes "d < 10"
  shows "isDigit (digitChar d)" "digitVal (digitChar d) = d"
  using assms by (simp_all add: isDigit_def digitChar_def digitVal_def)

lemma isDigit_not_special:
  "isDigit c \<Longrightarrow> c \<noteq> CHR ''.'' \<and> c \<noteq> CHR ''e'' \<and> c \<noteq> CHR ''E'' \<and> c \<noteq> CHR ''-'' \<and> c \<noteq> CHR ''+''"
  by (auto simp: isDigit_def)

lemma digitChar_eq_0: "d < 10 \<Longrightarrow> digitChar d = CHR ''0'' \<longleftrightarrow> d = 0"
proof -
  assume d: "d < 10"
  have "digitVal (CHR ''0'') = 0" by (simp add: digitVal_def)
  moreover have "digitChar 0 = CHR ''0''" by code_simp
  ultimately show ?thesis using digitChar_props(2)[OF d] by metis
qed

lemma showNat_digits: "list_all isDigit (showNat n)"
proof (induction n rule: showNat.induct)
  case (1 n)
  show ?case
  proof (cases "n < 10")
    case True
    then have "nat n < 10" by simp
    then show ?thesis using True by (subst showNat.simps) (simp add: digitChar_props)
  next
    case False
    have "nat (n mod 10) < 10" by simp
    then show ?thesis using False 1
      by (subst showNat.simps) (simp add: digitChar_props)
  qed
qed

lemma showNat_nonempty: "showNat n \<noteq> []"
  by (subst showNat.simps) simp

lemma parseNat_snoc: "parseNat (s @ [c]) = 10 * parseNat s + int (digitVal c)"
  by (simp add: parseNat_def)

lemma parseNat_showNat: "0 \<le> n \<Longrightarrow> parseNat (showNat n) = n"
proof (induction n rule: showNat.induct)
  case (1 n)
  show ?case
  proof (cases "n < 10")
    case True
    then have "nat n < 10" using 1 by simp
    then show ?thesis using True 1(2)
      by (subst showNat.simps) (simp add: parseNat_def digitChar_props)
  next
    case False
    have m: "nat (n mod 10) < 10" by simp
    have "parseNat (showNat (n div 10)) = n div 10" using 1 False by simp
    then show ?thesis using False
      by (subst showNat.simps) (simp add: parseNat_snoc digitChar_props[OF m])
  qed
qed

lemma foldl_parse_acc:
  "foldl (\<lambda>a c. 10 * a + int (digitVal c)) a s = a * 10 ^ length s + parseNat s"
proof (induction s arbitrary: a)
  case Nil show ?case by (simp add: parseNat_def)
next
  case (Cons c s)
  have "parseNat (c # s) = foldl (\<lambda>a c. 10 * a + int (digitVal c)) (int (digitVal c)) s"
    by (simp add: parseNat_def)
  also have "\<dots> = int (digitVal c) * 10 ^ length s + parseNat s" by (rule Cons.IH)
  finally have p: "parseNat (c # s) = int (digitVal c) * 10 ^ length s + parseNat s" .
  have "foldl (\<lambda>a c. 10 * a + int (digitVal c)) a (c # s)
      = (10 * a + int (digitVal c)) * 10 ^ length s + parseNat s"
    by (simp add: Cons.IH)
  then show ?case using p by (simp add: algebra_simps)
qed

lemma parseNat_Cons: "parseNat (c # s) = int (digitVal c) * 10 ^ length s + parseNat s"
  using foldl_parse_acc[of "int (digitVal c)" s] by (simp add: parseNat_def)

lemma frac_step_range:
  fixes x :: rat
  assumes "0 \<le> x" "x < 1"
  shows "0 \<le> \<lfloor>10 * x\<rfloor>" "\<lfloor>10 * x\<rfloor> < 10" "0 \<le> 10 * x - of_int \<lfloor>10 * x\<rfloor>" "10 * x - of_int \<lfloor>10 * x\<rfloor> < 1"
proof -
  show "0 \<le> \<lfloor>10 * x\<rfloor>" using assms by simp
  have "10 * x < 10" using assms by simp
  then show "\<lfloor>10 * x\<rfloor> < 10" by (simp add: floor_less_iff)
  show "0 \<le> 10 * x - of_int \<lfloor>10 * x\<rfloor>" by simp
  show "10 * x - of_int \<lfloor>10 * x\<rfloor> < 1" by linarith
qed

lemma fracDigits_sound:
  assumes "0 \<le> x" "x < 1" "fracDigits fuel x = Inr ds"
  shows "list_all isDigit ds \<and> of_int (parseNat ds) / 10 ^ length ds = x \<and> (ds = [] \<longleftrightarrow> x = 0)
         \<and> (ds \<noteq> [] \<longrightarrow> last ds \<noteq> CHR ''0'')"
  using assms
proof (induction fuel arbitrary: x ds)
  case 0
  then show ?case by (subst (asm) fracDigits.simps) (auto simp: parseNat_def split: if_splits)
next
  case (Suc k)
  show ?case
  proof (cases "x = 0")
    case True
    then show ?thesis using Suc.prems by (subst (asm) fracDigits.simps) (auto simp: parseNat_def)
  next
    case False
    let ?y = "10 * x - of_int \<lfloor>10 * x\<rfloor>"
    from Suc.prems(3) False obtain ds' where
      r: "fracDigits k ?y = Inr ds'" and ds: "ds = digitChar (nat \<lfloor>10 * x\<rfloor>) # ds'"
      by (subst (asm) fracDigits.simps) (auto split: sum.splits)
    note rg = frac_step_range[OF Suc.prems(1,2)]
    have ih: "list_all isDigit ds' \<and> of_int (parseNat ds') / 10 ^ length ds' = ?y \<and> (ds' = [] \<longleftrightarrow> ?y = 0)
        \<and> (ds' \<noteq> [] \<longrightarrow> last ds' \<noteq> CHR ''0'')"
      using Suc.IH[OF rg(3) rg(4) r] .
    have d: "nat \<lfloor>10 * x\<rfloor> < 10" using rg(1) rg(2) by linarith
    have dv: "int (digitVal (digitChar (nat \<lfloor>10 * x\<rfloor>))) = \<lfloor>10 * x\<rfloor>"
      using digitChar_props(2)[OF d] rg by simp
    have "of_int (parseNat ds) / 10 ^ length ds
        = (of_int \<lfloor>10 * x\<rfloor> * 10 ^ length ds' + of_int (parseNat ds')) / (10 * 10 ^ length ds' :: rat)"
      unfolding ds parseNat_Cons dv by simp
    also have "\<dots> = (of_int \<lfloor>10 * x\<rfloor> + of_int (parseNat ds') / 10 ^ length ds') / 10"
      by (simp add: field_simps)
    also have "\<dots> = x" using ih by simp
    finally have v: "of_int (parseNat ds) / 10 ^ length ds = x" .
    have l: "last ds \<noteq> CHR ''0''"
    proof (cases "ds' = []")
      case True
      then have "?y = 0" using ih by simp
      then have "\<lfloor>10 * x\<rfloor> \<noteq> 0" using False by auto
      then have "nat \<lfloor>10 * x\<rfloor> \<noteq> 0" using rg(1) by linarith
      then show ?thesis using True ds digitChar_eq_0[OF d] by simp
    next
      case False
      then show ?thesis using ih ds by simp
    qed
    show ?thesis using v l ih ds False digitChar_props(1)[OF d] by simp
  qed
qed

lemma hasPlaces_step:
  assumes "hasPlaces (Suc j) x"
  shows "hasPlaces j (10 * x - of_int \<lfloor>10 * x\<rfloor>)"
proof -
  from assms obtain a :: int where a: "x * 10 ^ Suc j = of_int a" by (auto simp: hasPlaces_def)
  have "(10 * x - of_int \<lfloor>10 * x\<rfloor>) * 10 ^ j = of_int (a - \<lfloor>10 * x\<rfloor> * 10 ^ j)"
    using a by (simp add: algebra_simps)
  then show ?thesis unfolding hasPlaces_def by blast
qed

lemma hasPlaces_0_frac:
  assumes "hasPlaces 0 x" "0 \<le> x" "x < 1" shows "x = 0"
proof -
  from assms obtain a :: int where a: "x = of_int a" by (auto simp: hasPlaces_def)
  then have "0 \<le> a" "a < 1" using assms by simp_all
  then show ?thesis using a by simp
qed

lemma fracDigits_total:
  assumes "hasPlaces j x" "0 \<le> x" "x < 1" "j \<le> fuel"
  shows "\<exists>ds. fracDigits fuel x = Inr ds"
  using assms
proof (induction fuel arbitrary: x j)
  case 0
  then have "x = 0" using hasPlaces_0_frac by simp
  then show ?case by (subst fracDigits.simps) simp
next
  case (Suc k)
  show ?case
  proof (cases "x = 0")
    case True then show ?thesis by (subst fracDigits.simps) simp
  next
    case False
    then obtain j' where j': "j = Suc j'" using Suc.prems hasPlaces_0_frac by (cases j) auto
    note rg = frac_step_range[OF Suc.prems(2,3)]
    have "\<exists>ds. fracDigits k (10 * x - of_int \<lfloor>10 * x\<rfloor>) = Inr ds"
      using Suc.IH[OF hasPlaces_step rg(3) rg(4)] Suc.prems j' by simp
    then show ?thesis using False by (subst fracDigits.simps) auto
  qed
qed

lemma splitOn_none: "\<forall>c \<in> set s. \<not> p c \<Longrightarrow> splitOn p s = [s]"
  by (induction s) simp_all

lemma splitOn_first:
  "\<forall>c \<in> set s. \<not> p c \<Longrightarrow> p d \<Longrightarrow> splitOn p (s @ d # t) = s # splitOn p t"
  by (induction s) simp_all

lemma digits_no_e: "list_all isDigit s \<Longrightarrow> \<forall>c \<in> set s. \<not> (c = CHR ''e'' \<or> c = CHR ''E'')"
  using isDigit_not_special by (auto simp: list_all_iff)

lemma digits_no_dot: "list_all isDigit s \<Longrightarrow> \<forall>c \<in> set s. \<not> (c = CHR ''.'')"
  using isDigit_not_special by (auto simp: list_all_iff)

lemma zerosUp_neg: "zerosUp (- int k) s = Inr (s @ replicate k CHR ''0'')"
proof (induction k arbitrary: s)
  case 0 show ?case by (subst zerosUp.simps) simp
next
  case (Suc k)
  have "zerosUp (- int (Suc k)) s = zerosUp (- int k) (s @ ''0'')"
    by (subst zerosUp.simps) simp
  then show ?case using Suc.IH[of "s @ ''0''"] by (simp add: replicate_app_Cons_same)
qed

lemma zerosDown_pos: "zerosDown (int k) s = Inr (s @ replicate k CHR ''0'')"
proof (induction k arbitrary: s)
  case 0 show ?case by (subst zerosDown.simps) simp
next
  case (Suc k)
  have "zerosDown (int (Suc k)) s = zerosDown (int k) (s @ ''0'')"
    by (subst zerosDown.simps) simp
  then show ?case using Suc.IH[of "s @ ''0''"] by (simp add: replicate_app_Cons_same)
qed

lemma removeFirstDot_mantissaForm:
  "list_all isDigit s \<Longrightarrow> removeFirstDot (pre @ mantissaForm s) = pre @ s" if "\<forall>c \<in> set pre. c \<noteq> CHR ''.''"
proof -
  assume d: "list_all isDigit s"
  have nd: "\<forall>c \<in> set s. c \<noteq> CHR ''.''" using digits_no_dot[OF d] by simp
  have tw: "takeWhile (\<lambda>c. c \<noteq> CHR ''.'') (pre @ r) = pre @ takeWhile (\<lambda>c. c \<noteq> CHR ''.'') r" for r
    using that by (simp add: takeWhile_append2)
  have dw: "dropWhile (\<lambda>c. c \<noteq> CHR ''.'') (pre @ r) = dropWhile (\<lambda>c. c \<noteq> CHR ''.'') r" for r
    using that by (simp add: dropWhile_append2)
  show ?thesis
  proof (cases s)
    case Nil
    have a: "takeWhile (\<lambda>c. c \<noteq> CHR ''.'') pre = pre" using that by (simp add: takeWhile_eq_all_conv)
    have b: "dropWhile (\<lambda>c. c \<noteq> CHR ''.'') pre = []" using that by simp
    show ?thesis unfolding Nil by (simp add: removeFirstDot_def mantissaForm_def a b)
  next
    case (Cons c cs)
    note s = this
    show ?thesis
    proof (cases cs)
      case Nil
      then show ?thesis using s nd by (simp add: removeFirstDot_def mantissaForm_def tw dw)
    next
      case (Cons c' cs')
      have a: "takeWhile (\<lambda>c. c \<noteq> CHR ''.'') (c # CHR ''.'' # cs) = [c]" using nd s by simp
      have b: "dropWhile (\<lambda>c. c \<noteq> CHR ''.'') (c # CHR ''.'' # cs) = CHR ''.'' # cs" using nd s by simp
      show ?thesis using s Cons a b by (simp add: removeFirstDot_def mantissaForm_def tw dw)
    qed
  qed
qed

lemma mantissaForm_no_e:
  "list_all isDigit s \<Longrightarrow> \<forall>c \<in> set (mantissaForm s). \<not> (c = CHR ''e'' \<or> c = CHR ''E'')"
  using isDigit_not_special
  by (cases s; cases "tl s") (auto simp: mantissaForm_def list_all_iff)

lemma numberOfInteger_showNat:
  "0 \<le> n \<Longrightarrow> numberOfInteger (showNat n) = Some n"
  "0 \<le> n \<Longrightarrow> numberOfInteger (CHR ''-'' # showNat n) = Some (- n)"
proof -
  assume n: "0 \<le> n"
  obtain c cs where s: "showNat n = c # cs" using showNat_nonempty[of n] by (cases "showNat n") auto
  have d: "list_all isDigit (c # cs)" using showNat_digits[of n] s by simp
  then have "c \<noteq> CHR ''-''" "c \<noteq> CHR ''+''" using isDigit_not_special[of c] by auto
  then show "numberOfInteger (showNat n) = Some n"
    using d parseNat_showNat[OF n] unfolding s by (simp add: numberOfInteger_def)
  show "numberOfInteger (CHR ''-'' # showNat n) = Some (- n)"
    using d parseNat_showNat[OF n] unfolding s by (simp add: numberOfInteger_def)
qed

lemma takeWhile_eq_replicate:
  "takeWhile (\<lambda>c. c = a) s = replicate (length (takeWhile (\<lambda>c. c = a) s)) a"
  by (induction s) simp_all

lemma showNat_0: "showNat 0 = ''0''"
  by code_simp

lemma plainDecimal_no_e:
  "list_all isDigit fd \<Longrightarrow> \<forall>c \<in> set (plainDecimal n fd). \<not> (c = CHR ''e'' \<or> c = CHR ''E'')"
  using digits_no_e[OF showNat_digits[of n] ] digits_no_e[of fd]
  by (auto simp: plainDecimal_def)

lemma fracDigits_floor_sound:
  fixes x :: rat
  assumes "fracDigits fuel (x - of_int \<lfloor>x\<rfloor>) = Inr fd"
  shows "list_all isDigit fd" "of_int (parseNat fd) / 10 ^ length fd = x - of_int \<lfloor>x\<rfloor>"
    "fd = [] \<longleftrightarrow> x - of_int \<lfloor>x\<rfloor> = 0" "fd \<noteq> [] \<Longrightarrow> last fd \<noteq> CHR ''0''"
proof -
  have "0 \<le> x - of_int \<lfloor>x\<rfloor>" "x - of_int \<lfloor>x\<rfloor> < 1" by linarith+
  from fracDigits_sound[OF this assms]
  show "list_all isDigit fd" "of_int (parseNat fd) / 10 ^ length fd = x - of_int \<lfloor>x\<rfloor>"
    "fd = [] \<longleftrightarrow> x - of_int \<lfloor>x\<rfloor> = 0" "fd \<noteq> [] \<Longrightarrow> last fd \<noteq> CHR ''0''"
    by auto
qed

lemma unexponentiate_of_plain:
  assumes "numberToString y = Inr s" "\<forall>c \<in> set s. \<not> (c = CHR ''e'' \<or> c = CHR ''E'')"
  shows "unexponentiate y = Inr s"
  using assms by (simp add: unexponentiate_def splitOn_none)

lemma positiveToString_plain:
  assumes "1 / 10 ^ 6 \<le> x" "x < 10 ^ 21" "fracDigits 1100 (x - of_int \<lfloor>x\<rfloor>) = Inr fd"
  shows "positiveToString x = Inr (plainDecimal \<lfloor>x\<rfloor> fd)"
  using assms by (simp add: positiveToString_def plainDecimal_def Let_def)

lemma small_first_digit:
  fixes x :: rat
  assumes "0 < x" "x < 1 / 10 ^ 6" "fracDigits 1100 x = Inr fd"
  shows "\<exists>ds. fd = CHR ''0'' # ds"
proof -
  have f: "\<lfloor>10 * x\<rfloor> = 0" using assms by (simp add: floor_eq_iff field_simps)
  have "digitChar 0 = CHR ''0''" by code_simp
  then show ?thesis using assms f
    by (subst (asm) fracDigits.simps) (auto simp: numeral_eq_Suc split: sum.splits)
qed

lemma unexponentiate_small:
  fixes x :: rat
  assumes "0 < x" "x < 1 / 10 ^ 6" "fracDigits 1100 x = Inr fd"
  shows "unexponentiate x = Inr (plainDecimal 0 fd)"
    and "unexponentiate (- x) = Inr (CHR ''-'' # plainDecimal 0 fd)"
proof -
  let ?z = "takeWhile (\<lambda>c. c = CHR ''0'') fd"
  let ?sig = "dropWhile (\<lambda>c. c = CHR ''0'') fd"
  let ?k = "length ?z"
  let ?p = "\<lambda>c. c = CHR ''e'' \<or> c = CHR ''E''"
  have fl: "\<lfloor>x\<rfloor> = 0" using assms by (simp add: floor_eq_iff field_simps)
  have x1: "0 \<le> x" "x < 1" using assms by (simp_all add: field_simps)
  note snd = fracDigits_sound[OF x1 assms(3)]
  have dg: "list_all isDigit fd" using snd by simp
  have ne: "fd \<noteq> []" using snd assms by simp
  have dsig: "list_all isDigit ?sig" using dg by (auto simp: list_all_iff dest: set_dropWhileD)
  obtain ds where fd: "fd = CHR ''0'' # ds" using small_first_digit[OF assms] by blast
  have kpos: "0 < ?k" using fd by simp
  have pts: "positiveToString x
      = Inr (mantissaForm ?sig @ ''e-'' @ showNat (int ?k + 1))"
    using assms fl by (simp add: positiveToString_def Let_def)
  have sp: "splitOn ?p (pre @ mantissaForm ?sig @ ''e-'' @ showNat (int ?k + 1))
      = [pre @ mantissaForm ?sig, CHR ''-'' # showNat (int ?k + 1)]" if "\<forall>c\<in>set pre. \<not> ?p c" for pre
  proof -
    have a: "\<forall>c \<in> set (pre @ mantissaForm ?sig). \<not> ?p c"
      using mantissaForm_no_e[OF dsig] that by auto
    have b: "\<forall>c \<in> set (CHR ''-'' # showNat (int ?k + 1)). \<not> ?p c"
      using digits_no_e[OF showNat_digits] by auto
    have "splitOn ?p ((pre @ mantissaForm ?sig) @ CHR ''e'' # (CHR ''-'' # showNat (int ?k + 1)))
        = (pre @ mantissaForm ?sig) # splitOn ?p (CHR ''-'' # showNat (int ?k + 1))"
      by (rule splitOn_first[OF a]) simp
    then show ?thesis using splitOn_none[OF b] by simp
  qed
  have ni: "numberOfInteger (CHR ''-'' # showNat (int ?k + 1)) = Some (- (int ?k + 1))"
    by (rule numberOfInteger_showNat) simp
  have zs: "?z = replicate ?k CHR ''0''" by (rule takeWhile_eq_replicate)
  have sig_ne: "?sig \<noteq> []"
  proof
    assume "?sig = []"
    then have "\<forall>c \<in> set fd. c = CHR ''0''" by (simp add: dropWhile_eq_Nil_conv)
    then have "last fd = CHR ''0''" using ne last_in_set by blast
    then show False using snd ne by simp
  qed
  then obtain c cs where sg: "?sig = c # cs" by (cases ?sig) auto
  have "isDigit c" using dsig sg by simp
  then have cm: "c \<noteq> CHR ''-''" using isDigit_not_special by blast
  have rl: "removeLeadingMinus ?sig = ?sig" using sg cm by (simp add: removeLeadingMinus_def)
  have rl2: "removeLeadingMinus (CHR ''-'' # ?sig) = ?sig" by (simp add: removeLeadingMinus_def)
  have join: "?z @ ?sig = fd" by simp
  have pd: "plainDecimal 0 fd = ''0.'' @ replicate ?k CHR ''0'' @ ?sig"
    using ne join zs by (simp add: plainDecimal_def showNat_0)
  have mag: "- (int ?k + 1) + 1 = - int ?k" by simp
  have neg: "- int ?k < 0" using kpos by simp
  have nts: "numberToString x = positiveToString x" using assms by (simp add: numberToString_def)
  have rfd: "removeFirstDot (mantissaForm ?sig) = ?sig"
    using removeFirstDot_mantissaForm[of "[]" ?sig] dsig by simp
  have l2: "length [mantissaForm ?sig, CHR ''-'' # showNat (int ?k + 1)] \<noteq> 1" by simp
  show "unexponentiate x = Inr (plainDecimal 0 fd)"
    unfolding unexponentiate_def nts pts
    using sp[of "[]"] assms(1) neg
    by (simp add: Let_def ni mag zerosUp_neg rfd rl pd del: dropWhile_eq_Nil_conv)
  have nts': "numberToString (- x) = Inr (CHR ''-'' # mantissaForm ?sig @ ''e-'' @ showNat (int ?k + 1))"
    using assms pts by (simp add: numberToString_def)
  have rfd': "removeFirstDot (CHR ''-'' # mantissaForm ?sig) = CHR ''-'' # ?sig"
    using removeFirstDot_mantissaForm[of "''-''" ?sig] dsig by simp
  show "unexponentiate (- x) = Inr (CHR ''-'' # plainDecimal 0 fd)"
    unfolding unexponentiate_def nts'
    using sp[of "''-''"] assms(1) neg
    by (simp add: Let_def ni mag zerosUp_neg rfd' rl2 pd del: dropWhile_eq_Nil_conv)
qed

lemma unexponentiate_nonneg:
  fixes x :: rat
  assumes "0 \<le> x" "x < 10 ^ 21" "fracDigits 1100 (x - of_int \<lfloor>x\<rfloor>) = Inr fd"
  shows "unexponentiate x = Inr (plainDecimal \<lfloor>x\<rfloor> fd)"
proof -
  note snd = fracDigits_floor_sound[OF assms(3)]
  consider "x = 0" | "0 < x" "x < 1 / 10 ^ 6" | "1 / 10 ^ 6 \<le> x" using assms(1) by fastforce
  then show ?thesis
  proof cases
    case 1
    then have "fd = []" using snd by simp
    then show ?thesis using 1 showNat_0
      by (simp add: unexponentiate_def numberToString_def plainDecimal_def)
  next
    case 2
    then have fl: "\<lfloor>x\<rfloor> = 0" by (simp add: floor_eq_iff field_simps)
    show ?thesis using unexponentiate_small(1)[OF 2] assms(3) fl by simp
  next
    case 3
    have "(0::rat) < 1 / 10 ^ 6" by simp
    then have "0 < x" using 3 by linarith
    then have "numberToString x = Inr (plainDecimal \<lfloor>x\<rfloor> fd)"
      using positiveToString_plain[OF 3 assms(2,3)] by (simp add: numberToString_def)
    then show ?thesis using plainDecimal_no_e[OF snd(1)] by (rule unexponentiate_of_plain)
  qed
qed

lemma unexponentiate_negative:
  fixes x :: rat
  assumes "0 < x" "x < 10 ^ 21" "fracDigits 1100 (x - of_int \<lfloor>x\<rfloor>) = Inr fd"
  shows "unexponentiate (- x) = Inr (CHR ''-'' # plainDecimal \<lfloor>x\<rfloor> fd)"
proof -
  note snd = fracDigits_floor_sound[OF assms(3)]
  consider "x < 1 / 10 ^ 6" | "1 / 10 ^ 6 \<le> x" by fastforce
  then show ?thesis
  proof cases
    case 1
    then have fl: "\<lfloor>x\<rfloor> = 0" using assms by (simp add: floor_eq_iff field_simps)
    show ?thesis using unexponentiate_small(2)[OF assms(1) 1] assms(3) fl by simp
  next
    case 2
    have "numberToString (- x) = Inr (CHR ''-'' # plainDecimal \<lfloor>x\<rfloor> fd)"
      using positiveToString_plain[OF 2 assms(2,3)] assms(1) by (simp add: numberToString_def)
    moreover have "\<forall>c \<in> set (CHR ''-'' # plainDecimal \<lfloor>x\<rfloor> fd). \<not> (c = CHR ''e'' \<or> c = CHR ''E'')"
      using plainDecimal_no_e[OF snd(1)] by simp
    ultimately show ?thesis by (rule unexponentiate_of_plain)
  qed
qed

lemma splitOn_plainDecimal:
  assumes "list_all isDigit fd" "\<forall>c \<in> set pre. c \<noteq> CHR ''.''"
  shows "splitOn (\<lambda>c. c = CHR ''.'') (pre @ plainDecimal n fd)
     = (if fd = [] then [pre @ showNat n] else [pre @ showNat n, fd])"
proof -
  let ?p = "\<lambda>c. c = CHR ''.''"
  have a: "\<forall>c \<in> set (pre @ showNat n). \<not> ?p c"
    using digits_no_dot[OF showNat_digits[of n] ] assms(2) by auto
  have b: "\<forall>c \<in> set fd. \<not> ?p c" using digits_no_dot[OF assms(1)] .
  show ?thesis
  proof (cases "fd = []")
    case True
    then show ?thesis using splitOn_none[OF a] by (simp add: plainDecimal_def)
  next
    case False
    have "splitOn ?p ((pre @ showNat n) @ CHR ''.'' # fd) = (pre @ showNat n) # splitOn ?p fd"
      by (rule splitOn_first[OF a]) simp
    then show ?thesis using False splitOn_none[OF b] by (simp add: plainDecimal_def)
  qed
qed

lemma takeWhile_digits_plain:
  assumes "list_all isDigit fd"
  shows "takeWhile isDigit (plainDecimal n fd) = showNat n"
proof -
  have "\<not> isDigit (CHR ''.'')" by (simp add: isDigit_def)
  then show ?thesis using showNat_digits[of n]
    by (simp add: plainDecimal_def takeWhile_append2 list_all_iff takeWhile_eq_all_conv)
qed

lemma parseInt_plainDecimal:
  assumes "list_all isDigit fd" "0 \<le> n"
  shows "parseInt (plainDecimal n fd) = Some n"
proof -
  obtain c cs where s: "showNat n = c # cs" using showNat_nonempty[of n] by (cases "showNat n") auto
  have "isDigit c" using showNat_digits[of n] s by simp
  then have c: "c \<noteq> CHR ''-''" "c \<noteq> CHR ''+''" using isDigit_not_special by blast+
  have h: "plainDecimal n fd \<noteq> []" "hd (plainDecimal n fd) = c"
    using s by (simp_all add: plainDecimal_def)
  show ?thesis
    unfolding parseInt_def Let_def using h c takeWhile_digits_plain[OF assms(1), of n]
      showNat_nonempty[of n] parseNat_showNat[OF assms(2)]
    by simp
qed

lemma numberOfFraction_digits:
  "list_all isDigit fd \<Longrightarrow> numberOfFraction (Some fd) = Some (of_int (parseNat fd) / 10 ^ length fd)"
  by (simp add: numberOfFraction_def)

lemma numberToString_bit: "numberToString 0 = Inr ''0''" "numberToString 1 = Inr ''1''"
  by code_simp+

lemma digitChar_01: "digitChar 0 = CHR ''0''" "digitChar (Suc 0) = CHR ''1''"
  by code_simp+

lemma numberToString_mod2: "numberToString (of_nat (n mod 2)) = Inr [digitChar (n mod 2)]"
proof -
  have "n mod 2 = 0 \<or> n mod 2 = 1" by auto
  then show ?thesis using numberToString_bit digitChar_01 by auto
qed

lemma rat_half_nat:
  "\<lfloor>(of_nat n :: rat) / 2\<rfloor> = int (n div 2)"
  "(of_nat n :: rat) - 2 * of_int \<lfloor>(of_nat n :: rat) / 2\<rfloor> = of_nat (n mod 2)"
proof -
  have "\<lfloor>(of_nat n :: rat) / of_nat 2\<rfloor> = int (n div 2)"
    by (metis floor_divide_of_nat_eq)
  then show 1: "\<lfloor>(of_nat n :: rat) / 2\<rfloor> = int (n div 2)" by simp
  have "(of_nat n :: rat) = of_nat (2 * (n div 2) + n mod 2)" by simp
  also have "\<dots> = 2 * of_nat (n div 2) + of_nat (n mod 2)" by (simp only: of_nat_add of_nat_mult of_nat_numeral)
  finally show "(of_nat n :: rat) - 2 * of_int \<lfloor>(of_nat n :: rat) / 2\<rfloor> = of_nat (n mod 2)"
    unfolding 1 by simp
qed

lemma toBinaryIntLoop_step:
  "toBinaryIntLoop (of_nat n) bits =
     (if 0 < n div 2 then toBinaryIntLoop (of_nat (n div 2)) (bits @ [ [digitChar (n mod 2)] ])
      else Inr (bits @ [ [digitChar (n mod 2)] ]))"
proof -
  have "toBinaryIntLoop (of_nat n) bits =
     (if 0 < \<lfloor>(of_nat n :: rat) / 2\<rfloor>
      then toBinaryIntLoop (of_int \<lfloor>(of_nat n :: rat) / 2\<rfloor>) (bits @ [ [digitChar (n mod 2)] ])
      else Inr (bits @ [ [digitChar (n mod 2)] ]))"
    by (subst toBinaryIntLoop.simps) (simp only: rat_half_nat(2) numberToString_mod2 sum.case)
  then show ?thesis by (simp add: rat_half_nat(1))
qed

lemma toBinaryIntLoop_nat:
  "toBinaryIntLoop (of_nat n) bits = Inr (bits @ map (\<lambda>c. [c]) (lsbBits n))"
proof (induction n arbitrary: bits rule: lsbBits.induct)
  case (1 n)
  show ?case
  proof (cases "n < 2")
    case True
    then have d: "n div 2 = 0" "n mod 2 = n" by simp_all
    show ?thesis using True
      by (subst toBinaryIntLoop_step, subst lsbBits.simps) (simp add: d)
  next
    case False
    then have p: "0 < n div 2" by simp
    have "toBinaryIntLoop (of_nat n) bits
        = toBinaryIntLoop (of_nat (n div 2)) (bits @ [ [digitChar (n mod 2)] ])"
      using p by (subst toBinaryIntLoop_step) simp
    also have "\<dots> = Inr ((bits @ [ [digitChar (n mod 2)] ]) @ map (\<lambda>c. [c]) (lsbBits (n div 2)))"
      using 1 False by simp
    finally show ?thesis using False by (subst lsbBits.simps) simp
  qed
qed

lemma concat_rev_singletons: "concat (rev (map (\<lambda>c. [c]) s)) = rev s"
  by (induction s) simp_all

lemma toBinaryInt_nat: "toBinaryInt (of_nat n) = Inr (rev (lsbBits n))"
  using toBinaryIntLoop_nat[of n "[]"] by (simp add: toBinaryInt_def concat_rev_singletons)

lemma toBinaryInt_int: "toBinaryInt (of_int k) = Inr (rev (lsbBits (nat \<bar>k\<bar>)))"
proof -
  have "\<bar>of_int k :: rat\<bar> = of_nat (nat \<bar>k\<bar>)" by simp
  then show ?thesis using toBinaryIntLoop_nat[of "nat \<bar>k\<bar>" "[]"]
    by (simp add: toBinaryInt_def concat_rev_singletons del: of_nat_nat)
qed

lemma hasPlaces_double_frac:
  assumes "hasPlaces j x"
  shows "hasPlaces j (2 * x - of_int \<lfloor>2 * x\<rfloor>)"
proof -
  from assms obtain a :: int where a: "x * 10 ^ j = of_int a" by (auto simp: hasPlaces_def)
  have "(2 * x - of_int \<lfloor>2 * x\<rfloor>) * 10 ^ j = of_int (2 * a - \<lfloor>2 * x\<rfloor> * 10 ^ j)"
    using a by (simp add: algebra_simps)
  then show ?thesis unfolding hasPlaces_def by blast
qed

lemma hasPlaces_frac:
  assumes "hasPlaces j x"
  shows "hasPlaces j (x - of_int \<lfloor>x\<rfloor>)"
proof -
  from assms obtain a :: int where a: "x * 10 ^ j = of_int a" by (auto simp: hasPlaces_def)
  have "(x - of_int \<lfloor>x\<rfloor>) * 10 ^ j = of_int (a - \<lfloor>x\<rfloor> * 10 ^ j)"
    using a by (simp add: algebra_simps)
  then show ?thesis unfolding hasPlaces_def by blast
qed

lemma hasPlaces_abs: "hasPlaces j x \<Longrightarrow> hasPlaces j \<bar>x\<bar>"
proof -
  assume "hasPlaces j x"
  then obtain a :: int where a: "x * 10 ^ j = of_int a" by (auto simp: hasPlaces_def)
  have "\<bar>x\<bar> * 10 ^ j = \<bar>x * 10 ^ j\<bar>" by (simp add: abs_mult)
  also have "\<dots> = of_int \<bar>a\<bar>" using a by simp
  finally show ?thesis unfolding hasPlaces_def by blast
qed

lemma showNat_small: "0 \<le> k \<Longrightarrow> k < 10 \<Longrightarrow> showNat k = [digitChar (nat k)]"
  by (subst showNat.simps) simp

lemma double_range:
  fixes x :: rat
  assumes "0 < x" "x < 1"
  shows "0 \<le> \<lfloor>2 * x\<rfloor>" "\<lfloor>2 * x\<rfloor> < 2" "0 \<le> 2 * x - of_int \<lfloor>2 * x\<rfloor>" "2 * x - of_int \<lfloor>2 * x\<rfloor> < 1"
    "0 \<le> 2 * x" "2 * x < 10 ^ 21"
proof -
  show "0 \<le> \<lfloor>2 * x\<rfloor>" using assms by simp
  have "2 * x < 2" using assms by simp
  then show "\<lfloor>2 * x\<rfloor> < 2" by (simp add: floor_less_iff)
  show "0 \<le> 2 * x - of_int \<lfloor>2 * x\<rfloor>" by simp
  show "2 * x - of_int \<lfloor>2 * x\<rfloor> < 1" by linarith
  show "0 \<le> 2 * x" using assms by simp
  have "(2::rat) < 10 ^ 21" by simp
  then show "2 * x < 10 ^ 21" using \<open>2 * x < 2\<close> by linarith
qed

lemma decLoop_step:
  fixes x :: rat
  assumes "hasPlaces j x" "j \<le> 1100" "0 < x" "x < 1" "iters \<le> totalBits f"
  shows "decLoop f iters (Some x) acc =
     decLoop f (iters + 1)
       (if 2 * x - of_int \<lfloor>2 * x\<rfloor> = 0 then None else Some (2 * x - of_int \<lfloor>2 * x\<rfloor>))
       (acc @ [ [digitChar (nat \<lfloor>2 * x\<rfloor>)] ])"
proof -
  let ?y = "2 * x - of_int \<lfloor>2 * x\<rfloor>"
  note rg = double_range[OF assms(3,4)]
  obtain fd where fd: "fracDigits 1100 ?y = Inr fd"
    using fracDigits_total[OF hasPlaces_double_frac[OF assms(1)] rg(3) rg(4) assms(2)] by blast
  note snd = fracDigits_floor_sound[OF fd]
  have ux: "unexponentiate (x * 2) = Inr (plainDecimal \<lfloor>2 * x\<rfloor> fd)"
    using unexponentiate_nonneg[OF rg(5) rg(6) fd] by (simp add: mult.commute)
  have sp: "splitOn (\<lambda>c. c = CHR ''.'') (plainDecimal \<lfloor>2 * x\<rfloor> fd)
       = (if fd = [] then [showNat \<lfloor>2 * x\<rfloor>] else [showNat \<lfloor>2 * x\<rfloor>, fd])"
    using splitOn_plainDecimal[OF snd(1), of "[]" "\<lfloor>2 * x\<rfloor>"] by simp
  have pi: "parseInt (plainDecimal \<lfloor>2 * x\<rfloor> fd) = Some \<lfloor>2 * x\<rfloor>"
    using parseInt_plainDecimal[OF snd(1) rg(1)] .
  have ji: "joinedInt (Some \<lfloor>2 * x\<rfloor>) = [digitChar (nat \<lfloor>2 * x\<rfloor>)]"
    using rg(1) rg(2) showNat_small[of "\<lfloor>2 * x\<rfloor>"] by (simp add: joinedInt_def)
  have nf: "numberOfFraction (if fd = [] then None else Some fd) = (if ?y = 0 then None else Some ?y)"
    using snd numberOfFraction_digits[OF snd(1)] by (simp add: numberOfFraction_def)
  show ?thesis
    apply (subst decLoop.simps)
    using assms(3,5)
    apply (simp only: option.case Let_def ux sum.case sp pi ji if_True simp_thms)
    apply (cases "fd = []")
    using nf
     apply (simp_all)
    done
qed

lemma decLoop_fracBits:
  fixes x :: rat
  assumes "hasPlaces j x" "j \<le> 1100" "0 \<le> x" "x < 1"
  shows "decLoop f iters (if x = 0 then None else Some x) acc
     = Inr (acc @ map (\<lambda>c. [c]) (fracBits (totalBits f + 1 - iters) x))"
  using assms
proof (induction "totalBits f + 1 - iters" arbitrary: iters x acc)
  case 0
  then have "\<not> iters \<le> totalBits f" by simp
  then show ?case using 0 by (subst decLoop.simps) simp
next
  case (Suc k)
  then have it: "iters \<le> totalBits f" and k: "k = totalBits f + 1 - (iters + 1)" by simp_all
  have sk: "totalBits f + 1 - iters = Suc k" using Suc.hyps(2) by simp
  show ?case
  proof (cases "x = 0")
    case True
    then show ?thesis unfolding sk by (subst decLoop.simps) simp
  next
    case False
    then have xp: "0 < x" using Suc.prems by simp
    let ?y = "2 * x - of_int \<lfloor>2 * x\<rfloor>"
    note rg = double_range[OF xp Suc.prems(4)]
    have "decLoop f iters (Some x) acc
       = decLoop f (iters + 1) (if ?y = 0 then None else Some ?y) (acc @ [ [digitChar (nat \<lfloor>2 * x\<rfloor>)] ])"
      by (rule decLoop_step[OF Suc.prems(1,2) xp Suc.prems(4) it])
    also have "\<dots> = Inr ((acc @ [ [digitChar (nat \<lfloor>2 * x\<rfloor>)] ])
         @ map (\<lambda>c. [c]) (fracBits (totalBits f + 1 - (iters + 1)) ?y))"
      by (rule Suc.hyps(1)[OF k hasPlaces_double_frac[OF Suc.prems(1)] Suc.prems(2) rg(3) rg(4)])
    finally show ?thesis using False xp k unfolding sk by simp
  qed
qed

lemma decLoop_None: "decLoop f iters None acc = Inr acc"
  by (subst decLoop.simps) simp

lemma decLoop_Some:
  fixes x :: rat
  assumes "hasPlaces j x" "j \<le> 1100" "0 \<le> x" "x < 1"
  shows "decLoop f iters (Some x) acc
     = Inr (acc @ map (\<lambda>c. [c]) (fracBits (totalBits f + 1 - iters) x))"
proof (cases "x = 0")
  case True
  have "fracBits n 0 = []" for n by (cases n) simp_all
  then show ?thesis using True by (subst decLoop.simps) simp
next
  case False
  then show ?thesis using decLoop_fracBits[OF assms, of f iters acc] by simp
qed

lemma remainder_shift:
  "remainder i (2 * x - of_int \<lfloor>2 * x\<rfloor>) = remainder (Suc i) x"
proof -
  have "2 ^ i * (2 * x - of_int \<lfloor>2 * x\<rfloor>) = 2 ^ Suc i * x - of_int (2 ^ i * \<lfloor>2 * x\<rfloor>)"
    by (simp add: algebra_simps)
  then show ?thesis unfolding remainder_def by (simp only: floor_diff_of_int)
qed

lemma fracBits_length:
  fixes x :: rat
  assumes "0 \<le> x" "x < 1"
  shows "length (fracBits k x) \<le> k
     \<and> (\<forall>i < length (fracBits k x). remainder i x \<noteq> 0)
     \<and> (length (fracBits k x) = k \<or> remainder (length (fracBits k x)) x = 0)"
  using assms
proof (induction k arbitrary: x)
  case 0
  show ?case by simp
next
  case (Suc k)
  have r0: "remainder 0 x = x" using Suc.prems by (simp add: remainder_def floor_eq_iff)
  show ?case
  proof (cases "0 < x")
    case False
    then show ?thesis using Suc.prems r0 by simp
  next
    case True
    let ?y = "2 * x - of_int \<lfloor>2 * x\<rfloor>"
    note rg = double_range[OF True Suc.prems(2)]
    note ih = Suc.IH[OF rg(3) rg(4)]
    have len: "length (fracBits (Suc k) x) = Suc (length (fracBits k ?y))" using True by simp
    have a: "remainder i x \<noteq> 0" if "i < Suc (length (fracBits k ?y))" for i
    proof (cases i)
      case 0 then show ?thesis using r0 True by simp
    next
      case (Suc i')
      then have "i' < length (fracBits k ?y)" using that by simp
      then have "remainder i' ?y \<noteq> 0" using ih by blast
      then show ?thesis using Suc remainder_shift by simp
    qed
    show ?thesis unfolding len using ih a remainder_shift[of "length (fracBits k ?y)" x] by auto
  qed
qed

lemma fracBits_binary: "0 \<le> x \<Longrightarrow> x < 1 \<Longrightarrow> set (fracBits k x) \<subseteq> {CHR ''0'', CHR ''1''}"
proof (induction k arbitrary: x)
  case 0 show ?case by simp
next
  case (Suc k)
  show ?case
  proof (cases "0 < x")
    case False then show ?thesis by simp
  next
    case True
    note rg = double_range[OF True Suc.prems(2)]
    have "nat \<lfloor>2 * x\<rfloor> = 0 \<or> nat \<lfloor>2 * x\<rfloor> = Suc 0" using rg(1) rg(2) by linarith
    then have "digitChar (nat \<lfloor>2 * x\<rfloor>) \<in> {CHR ''0'', CHR ''1''}" using digitChar_01 by auto
    then show ?thesis using True Suc.IH[OF rg(3) rg(4)] by simp
  qed
qed

lemma decLoop_unfold:
  assumes "iters \<le> totalBits f" "0 < x" "decLoop f iters (Some x) acc = Inr bits"
  shows "\<exists>d b. decNext x = Inr d \<and> decLoop f (iters + 1) d (acc @ [b]) = Inr bits"
proof (cases "unexponentiate (x * 2)")
  case (Inl e)
  then have "decLoop f iters (Some x) acc = Inl e"
    using assms(1,2) by (subst decLoop.simps) (simp add: Let_def)
  then show ?thesis using assms(3) by simp
next
  case (Inr s)
  let ?parts = "splitOn (\<lambda>c. c = CHR ''.'') s"
  let ?d = "numberOfFraction (if 1 < length ?parts then Some (?parts ! 1) else None)"
  have "decLoop f iters (Some x) acc = decLoop f (iters + 1) ?d (acc @ [joinedInt (parseInt s)])"
    using assms(1,2) Inr by (subst decLoop.simps) (simp add: Let_def)
  moreover have "decNext x = Inr ?d" using Inr by (simp add: decNext_def Let_def)
  ultimately show ?thesis using assms(3) by auto
qed

lemma decLoop_trace:
  assumes "decLoop f iters d acc = Inr bits" "iters \<le> totalBits f + 1"
  shows "length acc \<le> length bits
     \<and> iters + (length bits - length acc) \<le> totalBits f + 1
     \<and> (\<forall>i < length bits - length acc. \<exists>d'. decState i d = Inr d' \<and> decGuard d')
     \<and> (iters + (length bits - length acc) = totalBits f + 1
        \<or> (\<exists>d'. decState (length bits - length acc) d = Inr d' \<and> \<not> decGuard d'))"
  using assms
proof (induction "totalBits f + 1 - iters" arbitrary: iters d acc)
  case 0
  then have it: "iters = totalBits f + 1" by simp
  then have "decLoop f iters d acc = Inr acc" by (subst decLoop.simps) (simp split: option.splits)
  then have "bits = acc" using 0 by simp
  then show ?case using it by simp
next
  case (Suc k)
  then have it: "iters \<le> totalBits f" by simp
  show ?case
  proof (cases "decGuard d")
    case False
    then have "decLoop f iters d acc = Inr acc"
      by (subst decLoop.simps) (simp add: decGuard_def split: option.splits)
    then have "bits = acc" using Suc.prems by simp
    then show ?thesis using False Suc.prems by simp
  next
    case True
    then obtain x where x: "d = Some x" "0 < x" by (auto simp: decGuard_def split: option.splits)
    obtain d1 b where s: "decNext x = Inr d1" "decLoop f (iters + 1) d1 (acc @ [b]) = Inr bits"
      using decLoop_unfold[OF it x(2)] Suc.prems(1) x(1) by blast
    have k: "k = totalBits f + 1 - (iters + 1)" using Suc.hyps(2) by simp
    have it1: "iters + 1 \<le> totalBits f + 1" using it by simp
    note ih = Suc.hyps(1)[OF k s(2) it1]
    let ?n' = "length bits - length (acc @ [b])"
    have l: "length acc < length bits" using ih by simp
    then have n: "length bits - length acc = Suc ?n'" by simp
    have st: "decState (Suc i) d = decState i d1" for i using x s(1) by simp
    have a: "\<exists>d'. decState i d = Inr d' \<and> decGuard d'" if "i < Suc ?n'" for i
    proof (cases i)
      case 0 then show ?thesis using True by simp
    next
      case (Suc i')
      then have "i' < ?n'" using that by simp
      then show ?thesis using ih Suc st by simp
    qed
    have c: "iters + Suc ?n' = totalBits f + 1
        \<or> (\<exists>d'. decState (Suc ?n') d = Inr d' \<and> \<not> decGuard d')"
    proof -
      have "iters + 1 + ?n' = totalBits f + 1
          \<or> (\<exists>d'. decState ?n' d1 = Inr d' \<and> \<not> decGuard d')" using ih by blast
      then show ?thesis unfolding st by auto
    qed
    have "iters + 1 + ?n' \<le> totalBits f + 1" using ih by blast
    then have b: "iters + Suc ?n' \<le> totalBits f + 1" by linarith
    show ?thesis unfolding n using l a b c by simp
  qed
qed

lemma concat_singletons: "concat (map (\<lambda>c. [c]) s) = s"
  by (induction s) simp_all

lemma abs_floor_parts:
  fixes x :: rat
  assumes "0 \<le> x"
  shows "nat \<bar>\<lfloor>x\<rfloor>\<bar> = nat \<lfloor>x\<rfloor>" "nat \<bar>- \<lfloor>x\<rfloor>\<bar> = nat \<lfloor>x\<rfloor>"
  using assms by simp_all

text \<open>The front end of the encoder: in plain notation the two parts are the floor and
  the fraction of the magnitude.\<close>

lemma toBinary_front:
  fixes num :: rat
  assumes "hasPlaces j num" "j \<le> 1100" "\<bar>num\<bar> < 10 ^ 21"
  shows "toBinary f num rounding =
     toBinaryFields f num rounding (rev (lsbBits (nat \<lfloor>\<bar>num\<bar>\<rfloor>)))
       (fracBits (totalBits f + 1) (\<bar>num\<bar> - of_int \<lfloor>\<bar>num\<bar>\<rfloor>))"
proof -
  let ?a = "\<bar>num\<bar>"
  let ?y = "?a - of_int \<lfloor>?a\<rfloor>"
  have y: "0 \<le> ?y" "?y < 1" by linarith+
  have hp: "hasPlaces j ?y" using hasPlaces_frac[OF hasPlaces_abs[OF assms(1)] ] .
  obtain fd where fd: "fracDigits 1100 ?y = Inr fd"
    using fracDigits_total[OF hp y assms(2)] by blast
  note snd = fracDigits_floor_sound[OF fd]
  have a0: "0 \<le> ?a" by simp
  have fl0: "0 \<le> \<lfloor>?a\<rfloor>" by simp
  have nf: "map_option abs (numberOfFraction (if fd = [] then None else Some fd))
      = (if ?y = 0 then None else Some ?y)"
    using snd numberOfFraction_digits[OF snd(1)] y by (simp add: numberOfFraction_def)
  have dl: "decLoop f 0 (if ?y = 0 then None else Some ?y) []
      = Inr (map (\<lambda>c. [c]) (fracBits (totalBits f + 1) ?y))"
    using decLoop_fracBits[OF hp assms(2) y, of f 0 "[]"] by simp
  have ib: "toBinaryInt (of_int k) = Inr (rev (lsbBits (nat \<lfloor>?a\<rfloor>)))"
    if "k = \<lfloor>?a\<rfloor> \<or> k = - \<lfloor>?a\<rfloor>" for k
    using that toBinaryInt_int[of k] fl0 by auto
  show ?thesis
  proof (cases "0 \<le> num")
    case True
    then have an: "?a = num" by simp
    have ux: "unexponentiate num = Inr (plainDecimal \<lfloor>?a\<rfloor> fd)"
      using unexponentiate_nonneg[OF a0 assms(3) fd] an by simp
    have sp: "splitOn (\<lambda>c. c = CHR ''.'') (plainDecimal \<lfloor>?a\<rfloor> fd)
       = (if fd = [] then [showNat \<lfloor>?a\<rfloor>] else [showNat \<lfloor>?a\<rfloor>, fd])"
      using splitOn_plainDecimal[OF snd(1), of "[]" "\<lfloor>?a\<rfloor>"] by simp
    have ni: "numberOfInteger (showNat \<lfloor>?a\<rfloor>) = Some \<lfloor>?a\<rfloor>"
      using numberOfInteger_showNat(1)[OF fl0] .
    show ?thesis
      unfolding toBinary_def ux sum.case Let_def sp
      using nf dl ib[of "\<lfloor>?a\<rfloor>"] ni
      by (cases "fd = []") (simp_all add: concat_singletons)
  next
    case False
    then have an: "num = - ?a" and ap: "0 < ?a" by simp_all
    have ux: "unexponentiate num = Inr (CHR ''-'' # plainDecimal \<lfloor>?a\<rfloor> fd)"
      using unexponentiate_negative[OF ap assms(3) fd] an by simp
    have sp: "splitOn (\<lambda>c. c = CHR ''.'') (CHR ''-'' # plainDecimal \<lfloor>?a\<rfloor> fd)
       = (if fd = [] then [CHR ''-'' # showNat \<lfloor>?a\<rfloor>] else [CHR ''-'' # showNat \<lfloor>?a\<rfloor>, fd])"
      using splitOn_plainDecimal[OF snd(1), of "''-''" "\<lfloor>?a\<rfloor>"] by simp
    have ni: "numberOfInteger (CHR ''-'' # showNat \<lfloor>?a\<rfloor>) = Some (- \<lfloor>?a\<rfloor>)"
      using numberOfInteger_showNat(2)[OF fl0] .
    show ?thesis
      unfolding toBinary_def ux sum.case Let_def sp
      using nf dl ib[of "- \<lfloor>?a\<rfloor>"] ni
      by (cases "fd = []") (simp_all add: concat_singletons)
  qed
qed

lemma hasPlaces_mono: "hasPlaces j x \<Longrightarrow> j \<le> k \<Longrightarrow> hasPlaces k x"
proof -
  assume h: "hasPlaces j x" and jk: "j \<le> k"
  from h obtain a :: int where a: "x * 10 ^ j = of_int a" by (auto simp: hasPlaces_def)
  have "x * 10 ^ k = x * 10 ^ j * 10 ^ (k - j)" using jk by (simp add: power_add[symmetric])
  also have "\<dots> = of_int (a * 10 ^ (k - j))" using a by simp
  finally show ?thesis unfolding hasPlaces_def by blast
qed

lemma length_takeWhile_dropWhile: "length (takeWhile P s) + length (dropWhile P s) = length s"
  by (metis length_append takeWhile_dropWhile_id)

lemma stripTrailingZeros_restore:
  "stripTrailingZeros s @ replicate (length s - length (stripTrailingZeros s)) CHR ''0'' = s"
proof -
  let ?P = "\<lambda>c. c = CHR ''0''"
  have "rev s = takeWhile ?P (rev s) @ dropWhile ?P (rev s)" by simp
  then have "s = rev (dropWhile ?P (rev s)) @ rev (takeWhile ?P (rev s))"
    by (metis rev_append rev_rev_ident)
  moreover have "takeWhile ?P (rev s) = replicate (length (takeWhile ?P (rev s))) CHR ''0''"
    by (rule takeWhile_eq_replicate)
  moreover have "length (takeWhile ?P (rev s)) = length s - length (stripTrailingZeros s)"
    using length_takeWhile_dropWhile[of ?P "rev s"] by (simp add: stripTrailingZeros_def)
  ultimately show ?thesis by (simp add: stripTrailingZeros_def)
qed

lemma stripTrailingZeros_digits:
  "list_all isDigit s \<Longrightarrow> list_all isDigit (stripTrailingZeros s)"
  by (auto simp: stripTrailingZeros_def list_all_iff dest: set_dropWhileD)

lemma numberOfInteger_plus:
  "0 \<le> n \<Longrightarrow> numberOfInteger (CHR ''+'' # showNat n) = Some n"
proof -
  assume n: "0 \<le> n"
  have "showNat n \<noteq> []" by (rule showNat_nonempty)
  then show ?thesis using showNat_digits[of n] parseNat_showNat[OF n]
    by (simp add: numberOfInteger_def)
qed

lemma fracDigits_0: "fracDigits fuel 0 = Inr []"
  by (subst fracDigits.simps) simp

lemma unexponentiate_big:
  assumes "10 ^ 21 \<le> n"
  shows "unexponentiate (of_int n) = Inr (showNat n)"
proof -
  let ?ip = "showNat n"
  let ?sig = "stripTrailingZeros ?ip"
  let ?k = "length ?ip - length ?sig"
  let ?p = "\<lambda>c. c = CHR ''e'' \<or> c = CHR ''E''"
  let ?ex = "showNat (int (length ?ip) - 1)"
  have "(0::int) < 10 ^ 21" by simp
  then have np: "0 < n" using assms by linarith
  have xr: "(10::rat) ^ 21 \<le> of_int n"
  proof -
    have "(of_int (10 ^ 21) :: rat) \<le> of_int n" using assms by (simp only: of_int_le_iff)
    then show ?thesis by simp
  qed
  have dsig: "list_all isDigit ?sig" using stripTrailingZeros_digits[OF showNat_digits] .
  have pts: "positiveToString (of_int n) = Inr (mantissaForm ?sig @ ''e+'' @ ?ex)"
    using xr by (simp add: positiveToString_def Let_def fracDigits_0)
  have nts: "numberToString (of_int n) = Inr (mantissaForm ?sig @ ''e+'' @ ?ex)"
    using np pts by (simp add: numberToString_def)
  have a: "\<forall>c \<in> set (mantissaForm ?sig). \<not> ?p c" using mantissaForm_no_e[OF dsig] .
  have b: "\<forall>c \<in> set (CHR ''+'' # ?ex). \<not> ?p c" using digits_no_e[OF showNat_digits] by auto
  have "splitOn ?p (mantissaForm ?sig @ CHR ''e'' # (CHR ''+'' # ?ex))
      = mantissaForm ?sig # splitOn ?p (CHR ''+'' # ?ex)"
    by (rule splitOn_first[OF a]) simp
  then have sp: "splitOn ?p (mantissaForm ?sig @ ''e+'' @ ?ex) = [mantissaForm ?sig, CHR ''+'' # ?ex]"
    using splitOn_none[OF b] by simp
  have l1: "0 \<le> int (length ?ip) - 1" using showNat_nonempty[of n] by (cases ?ip) auto
  have ni: "numberOfInteger (CHR ''+'' # ?ex) = Some (int (length ?ip) - 1)"
    using numberOfInteger_plus[OF l1] .
  have rfd: "removeFirstDot (mantissaForm ?sig) = ?sig"
    using removeFirstDot_mantissaForm[of "[]" ?sig] dsig by simp
  have le: "length ?sig \<le> length ?ip"
    using stripTrailingZeros_restore[of ?ip] by (metis length_append le_add1)
  have mg: "int (length ?ip) - int (length ?sig) = int ?k" using le by simp
  have zd: "zerosDown (int ?k) [] = Inr (replicate ?k CHR ''0'')" using zerosDown_pos[of ?k "[]"] by simp
  have nn: "\<not> int (length ?ip) - 1 + 1 < 0" by simp
  show ?thesis
    unfolding unexponentiate_def nts sum.case sp Let_def
    using stripTrailingZeros_restore[of ?ip]
    by (simp add: ni rfd mg zd nn del: of_nat_diff)
qed

lemma toBinary_front_int:
  assumes "0 \<le> n"
  shows "toBinary f (of_int n) rounding
     = toBinaryFields f (of_int n) rounding (rev (lsbBits (nat n))) []"
proof -
  have ux: "unexponentiate (of_int n) = Inr (showNat n)"
  proof (cases "10 ^ 21 \<le> n")
    case True then show ?thesis by (rule unexponentiate_big)
  next
    case False
    have x0: "(0::rat) \<le> of_int n" using assms by simp
    have "(of_int n :: rat) < of_int (10 ^ 21)" using False by (simp only: of_int_less_iff not_le)
    then have x1: "(of_int n :: rat) < 10 ^ 21" by simp
    have fd: "fracDigits 1100 ((of_int n :: rat) - of_int \<lfloor>of_int n :: rat\<rfloor>) = Inr []"
      by (subst fracDigits.simps) simp
    show ?thesis using unexponentiate_nonneg[OF x0 x1 fd] by (simp add: plainDecimal_def)
  qed
  have sp: "splitOn (\<lambda>c. c = CHR ''.'') (showNat n) = [showNat n]"
    using splitOn_none[OF digits_no_dot[OF showNat_digits[of n] ] ] .
  have ni: "numberOfInteger (showNat n) = Some n" using numberOfInteger_showNat(1)[OF assms] .
  have ib: "toBinaryInt (of_int n) = Inr (rev (lsbBits (nat n)))"
    using toBinaryInt_int[of n] assms by simp
  show ?thesis
    unfolding toBinary_def ux sum.case Let_def sp
    by (simp add: ni ib numberOfFraction_def decLoop_None)
qed

lemma toBinary_front_general:
  fixes num :: rat
  assumes "hasPlaces j num" "j \<le> 1100"
    and "\<bar>num\<bar> < 10 ^ 21 \<or> (0 \<le> num \<and> (\<exists>n :: int. num = of_int n))"
  shows "toBinary f num rounding =
     toBinaryFields f num rounding (rev (lsbBits (nat \<lfloor>\<bar>num\<bar>\<rfloor>)))
       (fracBits (totalBits f + 1) (\<bar>num\<bar> - of_int \<lfloor>\<bar>num\<bar>\<rfloor>))"
proof (cases "\<bar>num\<bar> < 10 ^ 21")
  case True
  then show ?thesis using toBinary_front[OF assms(1,2)] by simp
next
  case False
  then obtain n :: int where n: "0 \<le> num" "num = of_int n" using assms(3) by blast
  then have n0: "0 \<le> n" by simp
  have z: "fracBits k 0 = []" for k by (cases k) simp_all
  have "\<bar>num\<bar> = of_int n" using n by simp
  then show ?thesis using toBinary_front_int[OF n0, of f rounding] n(2) by (simp add: z)
qed

section \<open>Binary digits of a natural number\<close>

lemma lsbBits_0: "lsbBits 0 = ''0''"
  by (subst lsbBits.simps) (simp add: digitChar_01)



lemma lsbBits_nonempty: "lsbBits n \<noteq> []"
  by (subst lsbBits.simps) simp

lemma lsbBits_last: "0 < n \<Longrightarrow> last (lsbBits n) = CHR ''1''"
proof (induction n rule: lsbBits.induct)
  case (1 n)
  show ?case
  proof (cases "n < 2")
    case True
    then have "n = Suc 0" using 1(2) by auto
    then show ?thesis using digitChar_01 by (subst lsbBits.simps) simp
  next
    case False
    then have "0 < n div 2" by simp
    then have "last (lsbBits (n div 2)) = CHR ''1''" using 1 False by simp
    then show ?thesis using False lsbBits_nonempty[of "n div 2"] by (subst lsbBits.simps) simp
  qed
qed


lemma lsbBits_length_gt: "2 ^ k \<le> n \<Longrightarrow> k < length (lsbBits n)"
proof (induction n arbitrary: k rule: lsbBits.induct)
  case (1 n)
  show ?case
  proof (cases "n < 2")
    case True
    have "k = 0"
    proof (cases k)
      case 0 then show ?thesis .
    next
      case (Suc j)
      have "(1::nat) \<le> 2 ^ j" by simp
      moreover have "2 * 2 ^ j \<le> n" using 1(2) Suc by simp
      ultimately show ?thesis using True by linarith
    qed
    then show ?thesis using lsbBits_nonempty[of n] by (cases "lsbBits n") auto
  next
    case False
    show ?thesis
    proof (cases k)
      case 0 then show ?thesis using lsbBits_nonempty[of n] by (cases "lsbBits n") auto
    next
      case (Suc k')
      then have "2 ^ k' \<le> n div 2" using 1(2) by auto
      then have "k' < length (lsbBits (n div 2))" using 1(1)[OF False] by simp
      then show ?thesis using False Suc by (subst lsbBits.simps) simp
    qed
  qed
qed

lemma lsbBits_odd: "0 < m \<Longrightarrow> lsbBits (2 * m + 1) = CHR ''1'' # lsbBits m"
  using digitChar_01 by (subst lsbBits.simps) simp

lemma lsbBits_ones: "0 < k \<Longrightarrow> lsbBits (2 ^ k - 1) = replicate k CHR ''1''"
proof (induction k)
  case 0 then show ?case by simp
next
  case (Suc k)
  show ?case
  proof (cases "k = 0")
    case True
    then show ?thesis using digitChar_01 by (subst lsbBits.simps) simp
  next
    case False
    obtain q :: nat where q: "2 ^ k = Suc q" by (cases "2 ^ k :: nat") auto
    have e: "(2 ^ Suc k - 1 :: nat) = 2 * (2 ^ k - 1) + 1" by (simp add: q)
    have "(2::nat) ^ 1 \<le> 2 ^ k" using False by (intro power_increasing) simp_all
    then have p: "0 < (2 ^ k - 1 :: nat)" by simp
    have ih: "lsbBits (2 ^ k - 1) = replicate k CHR ''1''" using Suc.IH False by simp
    show ?thesis by (simp only: e lsbBits_odd[OF p] ih replicate_Suc)
  qed
qed

lemma hd_rev_lsbBits: "0 < n \<Longrightarrow> hd (rev (lsbBits n)) = CHR ''1''"
  using lsbBits_last[of n] lsbBits_nonempty[of n] by (simp add: hd_rev)

lemma dropWhile_rev_lsbBits:
  "0 < n \<Longrightarrow> dropWhile (\<lambda>c. c = CHR ''0'') (rev (lsbBits n) @ t) = rev (lsbBits n) @ t"
proof -
  assume "0 < n"
  then have "hd (rev (lsbBits n)) = CHR ''1''" by (rule hd_rev_lsbBits)
  moreover have "rev (lsbBits n) \<noteq> []" using lsbBits_nonempty by simp
  ultimately show ?thesis by (cases "rev (lsbBits n)") auto
qed

lemma one_in_lsbBits: "0 < n \<Longrightarrow> CHR ''1'' \<in> set (lsbBits n)"
  using lsbBits_last[of n] lsbBits_nonempty[of n] last_in_set by metis

lemma foldl_bin_ones:
  "foldl (\<lambda>a c. 2 * a + binDigit c) a (replicate n CHR ''1'') = 2 ^ n * a + 2 ^ n - 1"
  by (induction n arbitrary: a) (simp_all add: binDigit_def algebra_simps)

lemma parseInt2_ones: "0 < n \<Longrightarrow> parseInt2 (replicate n CHR ''1'') = Some (2 ^ n - 1)"
  by (simp add: parseInt2_def foldl_bin_ones)

lemma substring_fields:
  "substring (c # A @ B) 0 1 = [c]"
  "substring (c # A @ B) 1 (1 + length A) = A"
  "substring (c # A @ B) (1 + length A) (1 + length A + length B) = B"
  by (simp_all add: substring_def Let_def min_def max_def)

section \<open>The encoder at zero and beyond the finite range\<close>

lemma bias_of_nat: "0 < e \<Longrightarrow> bias (constructor e m) = of_nat (2 ^ (e - 1) - 1)"
proof -
  assume e: "0 < e"
  have "(1::nat) \<le> 2 ^ (e - 1)" by simp
  then have "(of_nat (2 ^ (e - 1) - 1) :: rat) = of_nat (2 ^ (e - 1)) - of_nat 1"
    by (rule of_nat_diff)
  then show ?thesis unfolding bias_constructor[OF e]
    by (simp only: of_nat_power of_nat_numeral of_nat_1)
qed

lemma repeatMax0_nat: "repeatMax0 c (of_nat a - of_nat b) = replicate (a - b) c"
proof -
  have "nat \<lfloor>max 0 (of_nat a - of_nat b :: rat)\<rfloor> = a - b"
  proof (cases "b \<le> a")
    case True
    have 1: "nat \<lfloor>max 0 (of_nat (a - b) :: rat)\<rfloor> = a - b" by (simp add: max_def)
    have 2: "(of_nat (a - b) :: rat) = of_nat a - of_nat b" using True by (rule of_nat_diff)
    show ?thesis using 1 unfolding 2 .
  next
    case False
    then have "(of_nat a :: rat) < of_nat b" by (simp only: of_nat_less_iff not_le)
    then have "\<not> 0 \<le> (of_nat a - of_nat b :: rat)" by linarith
    then have "max 0 (of_nat a - of_nat b :: rat) = 0" unfolding max_def by (simp only: if_False)
    moreover have "a - b = 0" using False by linarith
    ultimately show ?thesis by (simp only: floor_zero nat_0)
  qed
  then show ?thesis by (simp only: repeatMax0_def)
qed

lemma maxAbs_constructor: "maxAbs (constructor e m) = 2 ^ (e + m) - 1"
proof -
  have "(of_nat (1 + e + m) - 1 :: rat) = of_nat (e + m)" by simp
  then show ?thesis by (simp only: constructor_def Float.simps pow2_nat)
qed

lemma fracBits_zero: "fracBits n 0 = []"
  by (cases n) simp_all

lemma hasPlaces_zero: "hasPlaces 0 0"
  by (simp add: hasPlaces_def)

lemma maxAbs_ge: "0 \<le> maxAbs (constructor e m)"
proof -
  have "(1::rat) \<le> 2 ^ (e + m)" by (rule one_le_power) simp
  then show ?thesis unfolding maxAbs_constructor by linarith
qed

lemma toBinary_zero_front: "toBinary f 0 rounding = toBinaryFields f 0 rounding ''0'' []"
proof -
  have a: "\<bar>0::rat\<bar> < 10 ^ 21" by simp
  have b: "(0::nat) \<le> 1100" by simp
  show ?thesis
    using toBinary_front[OF hasPlaces_zero b a, of f rounding] by (simp add: lsbBits_0 fracBits_zero)
qed

lemma toBinaryMantissa_empty:
  assumes "\<not> \<bar>num\<bar> > maxAbs f"
  shows "toBinaryMantissa f num rounding x False [] = replicate (mantBits f) CHR ''0''"
proof -
  have s: "substring [] a b = []" for a b by (simp add: substring_def)
  have r: "repeatMax0 CHR ''0'' (of_nat (mantBits f) - of_nat (length ([] :: string)))
     = replicate (mantBits f) CHR ''0''"
    using repeatMax0_nat[of "CHR ''0''" "mantBits f" 0] by simp
  show ?thesis unfolding toBinaryMantissa_def Let_def s using assms r by simp
qed

lemma toBinary_zero_exact:
  assumes "1 \<le> e"
  shows "toBinary (constructor e m) 0 rounding
     = Inr (CHR ''1'' # (CHR ''0'' # replicate (e - 1) CHR ''1'') @ replicate m CHR ''0'')"
proof -
  let ?f = "constructor e m"
  let ?B = "2 ^ (e - 1) - 1 :: nat"
  have ep: "0 < e" using assms by simp
  have b: "bias ?f = of_nat ?B" using bias_of_nat[OF ep] .
  have e1: "(if (of_int 0 :: rat) - bias ?f = 0 then 0 else of_int 0 + bias ?f) = of_nat ?B"
    unfolding b by simp
  have dg: "rev (lsbBits ?B) = (if e = 1 then ''0'' else replicate (e - 1) CHR ''1'')"
  proof (cases "e = 1")
    case True then show ?thesis by (simp add: lsbBits_0)
  next
    case False
    then have "0 < e - 1" using ep by simp
    then show ?thesis using False lsbBits_ones[of "e - 1"] by simp
  qed
  have pd: "repeatMax0 CHR ''0'' (of_nat e - of_nat (length (rev (lsbBits ?B)))) @ rev (lsbBits ?B)
      = CHR ''0'' # replicate (e - 1) CHR ''1''"
  proof (cases "e = 1")
    case True then show ?thesis unfolding dg repeatMax0_nat by simp
  next
    case False
    then have "e - (e - 1) = 1" using ep by simp
    then show ?thesis unfolding dg repeatMax0_nat using False by simp
  qed
  have ln: "\<not> length (CHR ''0'' # replicate (e - 1) CHR ''1'') > e" using ep by simp
  have mx: "\<not> \<bar>0 :: rat\<bar> > maxAbs ?f" using maxAbs_ge[of e m] by simp
  note mt = toBinaryMantissa_empty[OF mx]
  have nn: "\<not> (of_nat ?B :: rat) < 0" by (simp only: of_nat_less_0_iff not_False_eq_True)
  have "toBinaryFields ?f 0 rounding ''0'' []
     = Inr (''1'' @ (CHR ''0'' # replicate (e - 1) CHR ''1'') @ replicate m CHR ''0'')"
    unfolding toBinaryFields_def Let_def
    apply (simp only: dropWhile.simps list.set empty_iff if_True if_False simp_thms append_Nil2
        append_Nil e1 nn toBinaryInt_nat sum.case pd ln mt fields_constructor less_irrefl)
    done
  then show ?thesis using toBinary_zero_front[of ?f rounding] by simp
qed

lemma toBinaryMantissa_over:
  assumes "isInf \<or> \<bar>num\<bar> > maxAbs f"
  shows "toBinaryMantissa f num rounding x isInf nd = replicate (mantBits f) CHR ''0''"
  using assms by (simp add: toBinaryMantissa_def)

lemma lsbBits_length_lt_pow: "length (lsbBits n) \<le> k \<Longrightarrow> n < 2 ^ k"
  using lsbBits_length_gt[of k n] by (cases "n < 2 ^ k") auto

lemma toBinary_overflow:
  fixes v :: rat
  assumes e: "1 \<le> e" and hp: "hasPlaces j v" "j \<le> 1100"
    and small: "\<bar>v\<bar> < 10 ^ 21 \<or> (0 \<le> v \<and> (\<exists>n :: int. v = of_int n))"
    and over: "\<bar>v\<bar> > maxAbs (constructor e m)" and big: "2 ^ (2 ^ (e - 1)) \<le> \<bar>v\<bar>"
  shows "toBinary (constructor e m) v rounding
     = Inr ((if 0 < v then ''0'' else ''1'') @ replicate e CHR ''1'' @ replicate m CHR ''0'')"
proof -
  let ?f = "constructor e m"
  let ?K = "2 ^ (e - 1) :: nat"
  let ?B = "?K - 1"
  let ?I = "nat \<lfloor>\<bar>v\<bar>\<rfloor>"
  let ?L = "length (lsbBits ?I)"
  let ?N = "?L - 1 + ?B"
  let ?db = "fracBits (totalBits ?f + 1) (\<bar>v\<bar> - of_int \<lfloor>\<bar>v\<bar>\<rfloor>)"
  have ep: "0 < e" using e by simp
  have b: "bias ?f = of_nat ?B" using bias_of_nat[OF ep] .
  have "(2 ^ ?K :: int) \<le> \<lfloor>\<bar>v\<bar>\<rfloor>"
  proof -
    have "(of_int (2 ^ ?K) :: rat) \<le> \<bar>v\<bar>" using big by simp
    then show ?thesis by (simp only: le_floor_iff)
  qed
  then have I: "2 ^ ?K \<le> ?I" by (simp add: le_nat_iff)
  have Ipos: "0 < ?I" using I by (metis less_le_trans zero_less_numeral zero_less_power)
  have L: "?K < ?L" using lsbBits_length_gt[OF I] .
  have Kpos: "0 < ?K" by simp
  have nib: "dropWhile (\<lambda>c. c = CHR ''0'') (rev (lsbBits ?I)) = rev (lsbBits ?I)"
    using dropWhile_rev_lsbBits[OF Ipos, of "[]"] by simp
  have one: "CHR ''1'' \<in> set (rev (lsbBits ?I))" using one_in_lsbBits[OF Ipos] by simp
  have x0: "(of_int (int (length (rev (lsbBits ?I))) - 1) :: rat) = of_nat (?L - 1)"
  proof -
    have "int ?L - 1 = int (?L - 1)" using L by simp
    then show ?thesis by (simp only: length_rev of_int_of_nat_eq)
  qed
  have ne: "(of_nat (?L - 1) :: rat) - of_nat ?B \<noteq> 0"
  proof -
    have "?B < ?L - 1" using L Kpos by linarith
    then have "(of_nat ?B :: rat) < of_nat (?L - 1)" by (simp only: of_nat_less_iff)
    then show ?thesis by linarith
  qed
  have x1: "(of_nat (?L - 1) :: rat) + of_nat ?B = of_nat ?N" by (simp only: of_nat_add)
  have nn: "\<not> (of_nat ?N :: rat) < 0" by (simp only: of_nat_less_0_iff not_False_eq_True)
  have N: "2 ^ e - 1 \<le> ?N"
  proof -
    have "(2::nat) ^ e = 2 * ?K" using ep by (cases e) simp_all
    then show ?thesis using L Kpos by linarith
  qed
  have "2 ^ (e - 1) \<le> ?N"
  proof -
    have "(2::nat) ^ e = 2 * ?K" using ep by (cases e) simp_all
    then show ?thesis using N Kpos by linarith
  qed
  then have len: "e \<le> length (lsbBits ?N)" using lsbBits_length_gt[of "e - 1" ?N] ep by linarith
  then have pd: "repeatMax0 CHR ''0'' (of_nat e - of_nat (length (rev (lsbBits ?N)))) @ rev (lsbBits ?N)
      = rev (lsbBits ?N)"
    unfolding repeatMax0_nat by simp
  have ef: "(if e < length (rev (lsbBits ?N)) then replicate e CHR ''1'' else rev (lsbBits ?N))
      = replicate e CHR ''1''"
  proof (cases "e < length (lsbBits ?N)")
    case True then show ?thesis by simp
  next
    case False
    then have "length (lsbBits ?N) \<le> e" by simp
    then have "?N < 2 ^ e" by (rule lsbBits_length_lt_pow)
    then have "?N = 2 ^ e - 1" using N by linarith
    then have "lsbBits ?N = replicate e CHR ''1''" using lsbBits_ones[OF ep] by simp
    then show ?thesis by simp
  qed
  have mt: "toBinaryMantissa ?f v rounding x isInf nd = replicate m CHR ''0''" for x isInf nd
    using toBinaryMantissa_over[where f = ?f and num = v] over by (simp add: fields_constructor)
  have sw: "dropWhile (\<lambda>c. c = CHR ''0'') (rev (lsbBits ?I) @ ?db) = rev (lsbBits ?I) @ ?db"
    using dropWhile_rev_lsbBits[OF Ipos] .
  have "toBinaryFields ?f v rounding (rev (lsbBits ?I)) ?db
     = Inr ((if 0 < v then ''0'' else ''1'') @ replicate e CHR ''1'' @ replicate m CHR ''0'')"
    unfolding toBinaryFields_def Let_def
    by (simp only: nib one if_True x0 b ne if_False x1 nn toBinaryInt_nat sum.case pd ef mt
        fields_constructor)
  then show ?thesis using toBinary_front_general[OF hp small, of ?f rounding] by simp
qed

lemma toDecimal_infinity_pattern:
  assumes "1 \<le> e" "1 \<le> m" "c = CHR ''0'' \<or> c = CHR ''1''"
  shows "toDecimal (constructor e m) (c # replicate e CHR ''1'' @ replicate m CHR ''0'')
     = (if c = CHR ''0'' then PosInfinity else NegInfinity)"
proof -
  let ?f = "constructor e m"
  let ?bits = "c # replicate e CHR ''1'' @ replicate m CHR ''0''"
  have ep: "0 < e" and mp: "0 < m" using assms by simp_all
  have len: "length ?bits = 1 + e + m" by simp
  have bin: "\<not> (\<exists>ch \<in> set ?bits. ch \<notin> {CHR ''0'', CHR ''1''})" using assms(3) by auto
  have fs: "substring ?bits 0 1 = [c]"
    "substring ?bits 1 (1 + e) = replicate e CHR ''1''"
    "substring ?bits (1 + e) (1 + e + m) = replicate m CHR ''0''"
    using substring_fields[of c "replicate e CHR ''1''" "replicate m CHR ''0''"] by simp_all
  have p0: "parseInt2 [c] = Some 0 \<longleftrightarrow> c = CHR ''0''"
    using assms(3) by (auto simp: parseInt2_def binDigit_def)
  have pe: "parseInt2 (replicate e CHR ''1'') = Some (2 ^ e - 1)" using parseInt2_ones[OF ep] .
  have pm: "parseInt2 (replicate m CHR ''0'') = Some 0" using mp by (simp add: parseInt2_zeros)
  have "(2::rat) ^ e = 2 * 2 ^ (e - 1)" using ep by (cases e) simp_all
  then have b2: "bias ?f * 2 = 2 ^ e - 2" using bias_constructor[OF ep, of m] by simp
  have gt: "(of_int (2 ^ e - 1) :: rat) > bias ?f * 2" unfolding b2 by simp
  have eq: "(of_int (2 ^ e - 1) :: rat) = bias ?f * 2 + 1" unfolding b2 by simp
  have r: "toDecimal ?f ?bits = signedInfinity (if parseInt2 [c] = Some 0 then 1 else - 1)"
    unfolding toDecimal_def fields_constructor Let_def
    by (simp only: len bin fs pe pm option.case eq simp_thms if_True if_False) simp
  show ?thesis unfolding r using p0 by (simp add: signedInfinity_def)
qed

section \<open>Decoding what the encoder returns\<close>

lemma foldl_bin_acc:
  "foldl (\<lambda>a c. 2 * a + binDigit c) a s = a * 2 ^ length s + bval s"
proof (induction s arbitrary: a)
  case Nil show ?case by (simp add: bval_def)
next
  case (Cons c s)
  have "bval (c # s) = foldl (\<lambda>a c. 2 * a + binDigit c) (binDigit c) s" by (simp add: bval_def)
  also have "\<dots> = binDigit c * 2 ^ length s + bval s" by (rule Cons.IH)
  finally have p: "bval (c # s) = binDigit c * 2 ^ length s + bval s" .
  have "foldl (\<lambda>a c. 2 * a + binDigit c) a (c # s) = (2 * a + binDigit c) * 2 ^ length s + bval s"
    by (simp add: Cons.IH)
  then show ?case using p by (simp add: algebra_simps)
qed

lemma bval_Nil: "bval [] = 0"
  by (simp add: bval_def)

lemma bval_Cons: "bval (c # s) = binDigit c * 2 ^ length s + bval s"
  using foldl_bin_acc[of "binDigit c" s] by (simp add: bval_def)



lemma bval_nonneg: "0 \<le> bval s"
  by (induction s) (simp_all add: bval_Nil bval_Cons binDigit_def)


lemma bval_zeros: "bval (replicate n CHR ''0'') = 0"
  by (induction n) (simp_all add: bval_Nil bval_Cons binDigit_def)

lemma parseInt2_bval: "s \<noteq> [] \<Longrightarrow> parseInt2 s = Some (bval s)"
  by (simp add: parseInt2_def bval_def)

















lemma bval_zero_binary:
  "set s \<subseteq> {CHR ''0'', CHR ''1''} \<Longrightarrow> bval s = 0 \<Longrightarrow> \<forall>c \<in> set s. c = CHR ''0''"
proof (induction s)
  case Nil show ?case by simp
next
  case (Cons c s)
  have n: "0 \<le> binDigit c * 2 ^ length s" "0 \<le> bval s"
    by (simp_all add: binDigit_def bval_nonneg)
  have "binDigit c * 2 ^ length s + bval s = 0" using Cons.prems(2) by (simp only: bval_Cons)
  then have z: "binDigit c * 2 ^ length s = 0" "bval s = 0" using n by linarith+
  then have "c \<noteq> CHR ''1''" by (auto simp: binDigit_def)
  then show ?case using Cons z by auto
qed



lemma binary_char_facts:
  "isDigit (CHR ''0'')" "isDigit (CHR ''1'')" "digitVal (CHR ''0'') = 0" "digitVal (CHR ''1'') = 1"
  by (simp_all add: isDigit_def digitVal_def)








lemma powi2_pos: "(0::rat) < 2 powi k"
  by simp





















lemma printsExactly_intro:
  assumes "\<bar>x\<bar> = of_int c * 10 powi z" "0 < c" "c mod 10 \<noteq> 0"
    and "2 powi b \<le> \<bar>x\<bar>" "\<bar>x\<bar> < 2 powi (b + 1)" "- 1022 \<le> b" "b \<le> 1023"
    and "\<bar>x\<bar> = of_int M * 2 powi (b - 52)"
    and "(2::rat) powi (b - 53) < of_int (min (c mod 10) (10 - c mod 10)) * 10 powi z"
  shows "printsExactly x"
  unfolding printsExactly_def using assms by blast

lemma printsExactly_3_16: "printsExactly (3 / 16)"
  by (rule printsExactly_intro[of _ 1875 "- 4" "- 3" 6755399441055744])
     (simp_all add: power_int_minus)


section \<open>Special values and the carry of the rounding\<close>

text \<open>With a mantissa bit, a raw exponent above twice the bias decodes to a signed
  infinity exactly when it is \<open>2 * bias + 1\<close> and the mantissa field is all zeros, and
  to NaN otherwise.\<close>

lemma toDecimal_special_values:
  assumes e: "1 \<le> e" and m: "1 \<le> m" and len: "length E = e" "length Mt = m"
    and bin: "c = CHR ''0'' \<or> c = CHR ''1''" "set E \<subseteq> {CHR ''0'', CHR ''1''}"
       "set Mt \<subseteq> {CHR ''0'', CHR ''1''}"
    and r: "of_int (bval E) > bias (constructor e m) * 2"
  shows "toDecimal (constructor e m) (c # E @ Mt)
     = (if of_int (bval E) = bias (constructor e m) * 2 + 1 \<and> (\<forall>b \<in> set Mt. b = CHR ''0'')
        then (if c = CHR ''0'' then PosInfinity else NegInfinity) else NaN)"
proof -
  let ?f = "constructor e m"
  let ?bits = "c # E @ Mt"
  have ep: "0 < e" using e by simp
  have l: "length ?bits = 1 + e + m" using len by simp
  have b: "\<not> (\<exists>ch \<in> set ?bits. ch \<notin> {CHR ''0'', CHR ''1''})" using bin by auto
  have fs: "substring ?bits 0 1 = [c]" "substring ?bits 1 (1 + e) = E"
    "substring ?bits (1 + e) (1 + e + m) = Mt"
    using substring_fields[of c E Mt] len by simp_all
  have En: "E \<noteq> []" using len ep by auto
  have Mn: "Mt \<noteq> []" using len m by auto
  have pe: "parseInt2 E = Some (bval E)" using parseInt2_bval[OF En] .
  have pm: "parseInt2 Mt = Some 0 \<longleftrightarrow> (\<forall>b \<in> set Mt. b = CHR ''0'')"
  proof
    assume "parseInt2 Mt = Some 0"
    then have "bval Mt = 0" using parseInt2_bval[OF Mn] by simp
    then show "\<forall>b \<in> set Mt. b = CHR ''0''" using bval_zero_binary[OF bin(3)] by blast
  next
    assume "\<forall>b \<in> set Mt. b = CHR ''0''"
    then have "Mt = replicate (length Mt) CHR ''0''" by (simp add: replicate_length_same)
    then have "bval Mt = 0" using bval_zeros[of "length Mt"] by simp
    then show "parseInt2 Mt = Some 0" using parseInt2_bval[OF Mn] by simp
  qed
  have p0: "signedInfinity (if parseInt2 [c] = Some 0 then 1 else - 1)
      = (if c = CHR ''0'' then PosInfinity else NegInfinity)"
    using bin(1) by (auto simp: parseInt2_def binDigit_def signedInfinity_def)
  have "toDecimal ?f ?bits =
     (if of_int (bval E) = bias ?f * 2 + 1 \<and> parseInt2 Mt = Some 0
      then signedInfinity (if parseInt2 [c] = Some 0 then 1 else - 1) else NaN)"
    unfolding toDecimal_def fields_constructor Let_def
    by (simp only: l b fs pe option.case r simp_thms if_True if_False)
  then show ?thesis unfolding pm p0 .
qed

text \<open>The carry loop with the sum 1 sets the lowest retained bit and changes no other:
  a carry out of that bit is never added to the bits above it.\<close>

lemma roundLoop_carried:
  "set s \<subseteq> {CHR ''0'', CHR ''1''} \<Longrightarrow> roundLoop 1 1 s = s"
proof (induction s)
  case Nil show ?case by simp
next
  case (Cons c s)
  then have "c = CHR ''0'' \<or> c = CHR ''1''" by simp
  then show ?case using Cons binary_char_facts by auto
qed

lemma roundLoop_one:
  assumes "set (c # s) \<subseteq> {CHR ''0'', CHR ''1''}"
  shows "roundLoop 1 0 (c # s) = CHR ''1'' # s"
proof -
  have "c = CHR ''0'' \<or> c = CHR ''1''" using assms by simp
  moreover have "roundLoop 1 1 s = s" using roundLoop_carried assms by simp
  ultimately show ?thesis using binary_char_facts by auto
qed

section \<open>The decoder\<close>

text \<open>
  C6.  A string whose length is not \<open>totalBits\<close>, or which holds a character other than
  \<open>0\<close> and \<open>1\<close>, decodes to NaN: the decoder returns the sentinel and nothing else.
\<close>

theorem toDecimal_malformed:
  "length bits \<noteq> totalBits f \<or> (\<exists>c \<in> set bits. c \<noteq> CHR ''0'' \<and> c \<noteq> CHR ''1'')
   \<Longrightarrow> toDecimal f bits = NaN"
  by (auto simp: toDecimal_def)

theorem toDecimal_malformed_witness:
  "length ''0101'' \<noteq> totalBits (constructor 4 3)
   \<and> toDecimal (constructor 4 3) ''0101'' = NaN
   \<and> CHR ''x'' \<in> set ''0100x000''
   \<and> toDecimal (constructor 4 3) ''0100x000'' = NaN"
  using toDecimal_malformed [of "''0101''" "constructor 4 3"]
    toDecimal_malformed [of "''0100x000''" "constructor 4 3"]
  by (simp add: fields_constructor)

text \<open>
  C10.  With at least one exponent bit, the string of \<open>totalBits\<close> zeros and the string of
  a one followed by zeros both decode to the finite value zero: the exponent field reads
  0, which does not exceed twice the bias, so both are decoded as subnormal numbers.
\<close>

theorem toDecimal_zero_patterns:
  assumes "1 \<le> e"
  shows "toDecimal (constructor e m) (replicate (1 + e + m) CHR ''0'') = Finite 0
       \<and> toDecimal (constructor e m) (CHR ''1'' # replicate (e + m) CHR ''0'') = Finite 0
       \<and> parseInt2 (substring (replicate (1 + e + m) CHR ''0'') 1 (1 + e)) = Some 0
       \<and> parseInt2 (substring (CHR ''1'' # replicate (e + m) CHR ''0'') 1 (1 + e)) = Some 0
       \<and> \<not> 0 > bias (constructor e m) * 2"
proof -
  have b: "\<not> 0 > bias (constructor e m) * 2" using bias_nonneg[of e m] assms by simp
  have e: "e \<noteq> 0" using assms by simp
  have f: "substring (c # replicate (e + m) CHR ''0'') 0 1 = [c]"
    "substring (c # replicate (e + m) CHR ''0'') 1 (1 + e) = replicate e CHR ''0''"
    "substring (c # replicate (e + m) CHR ''0'') (1 + e) (1 + e + m) = replicate m CHR ''0''"
    for c
    by (simp_all add: substring_0_1_Cons substring_Suc_Suc substring_replicate)
  have z: "replicate (1 + e + m) CHR ''0'' = CHR ''0'' # replicate (e + m) CHR ''0''" by simp
  have p: "parseInt2 [CHR ''0''] = Some 0" "parseInt2 [CHR ''1''] = Some 1"
    by (simp_all add: parseInt2_def binDigit_def)
  have 1: "toDecimal (constructor e m) (replicate (1 + e + m) CHR ''0'') = Finite 0"
    unfolding z toDecimal_def fields_constructor f Let_def using b e
    by (simp add: parseInt2_zeros binaryFracToDec_zeros p)
  have 2: "toDecimal (constructor e m) (CHR ''1'' # replicate (e + m) CHR ''0'') = Finite 0"
    unfolding toDecimal_def fields_constructor f Let_def using b e
    by (simp add: parseInt2_zeros binaryFracToDec_zeros p)
  have 3: "parseInt2 (substring (replicate (1 + e + m) CHR ''0'') 1 (1 + e)) = Some 0"
    unfolding z f using e by (simp add: parseInt2_zeros)
  have 4: "parseInt2 (substring (CHR ''1'' # replicate (e + m) CHR ''0'') 1 (1 + e)) = Some 0"
    unfolding f using e by (simp add: parseInt2_zeros)
  show ?thesis using 1 2 3 4 b by simp
qed

theorem toDecimal_zero_patterns_witness:
  "(1::nat) \<le> 4 \<and> toDecimal (constructor 4 3) ''00000000'' = Finite 0
       \<and> toDecimal (constructor 4 3) ''10000000'' = Finite 0"
  using toDecimal_zero_patterns[of 4 3] by (simp add: numeral_eq_Suc)

text \<open>
  C5.  With no mantissa bit the decoder does not recognise the infinity pattern: for two
  exponent bits the string \<open>011\<close> has the raw exponent \<open>3 = 2 * bias + 1\<close> and an empty
  mantissa field, in which every bit is zero, and it decodes to NaN.  It is the very
  string the encoder emits for a value that overflows.
\<close>

theorem toDecimal_infinity_without_mantissa:
  "toDecimal (constructor 2 0) ''011'' = NaN
   \<and> parseInt2 (substring ''011'' 1 (1 + expBits (constructor 2 0))) = Some 3
   \<and> bias (constructor 2 0) * 2 + 1 = 3
   \<and> substring ''011'' (1 + expBits (constructor 2 0))
        (1 + expBits (constructor 2 0) + mantBits (constructor 2 0)) = []
   \<and> toBinary (constructor 2 0) 8 False = Inr ''011''"
  by code_simp

section \<open>The constructor\<close>

text \<open>
  C9, as the claim states it, fails: a layout without exponent bits is constructed like
  any other, no \<open>InvalidLayout\<close> is raised.
\<close>

theorem createDescriptor_zero_exponent_succeeds:
  "createDescriptor 0 3 \<noteq> Inl InvalidLayout"
  by (simp add: createDescriptor_def)

text \<open>
  C9, amended.  Construction performs no validation and never fails: for all widths it
  returns the descriptor with \<open>totalBits = 1 + exponentBits + mantissaBits\<close>, and with no
  exponent bit the bias of that descriptor is \<open>-1/2\<close>.
\<close>

theorem createDescriptor_total:
  "createDescriptor e m = Inr (constructor e m)
   \<and> expBits (constructor e m) = e \<and> mantBits (constructor e m) = m
   \<and> totalBits (constructor e m) = 1 + e + m
   \<and> bias (constructor 0 m) = - 1 / 2"
proof -
  have "\<lfloor>- 1 :: rat\<rfloor> = - 1" by linarith
  then show ?thesis by (simp add: createDescriptor_def constructor_def pow2_def)
qed

section \<open>The encoder at particular values\<close>

text \<open>
  C4.  For four exponent and three mantissa bits, \<open>1.1875\<close> is \<open>1.0011\<close> in binary: the
  retained mantissa bits are \<open>001\<close> and the bit after them is \<open>1\<close>.  With rounding the
  encoder emits the mantissa \<open>001\<close>, as it does without, and not the incremented
  \<open>010\<close>: the carry out of the last retained bit is lost.  For three exponent and two
  mantissa bits, \<open>9/64\<close> is \<open>0.001001\<close> in binary and is stored with the exponent 0: the
  retained bits are \<open>10\<close> and the bit after them is \<open>0\<close>, yet with rounding the encoder
  emits \<open>11\<close>, because it reads the bit one place further on.
\<close>

theorem toBinary_rounding_loses_carry:
  "toBinary (constructor 4 3) (19 / 16) True = Inr ''00111001''
   \<and> toBinary (constructor 4 3) (19 / 16) False = Inr ''00111001''
   \<and> toBinary (constructor 3 2) (9 / 64) True = Inr ''000011''
   \<and> toBinary (constructor 3 2) (9 / 64) False = Inr ''000010''"
  by code_simp

text \<open>
  C8.  With eight exponent and 62 mantissa bits \<open>10^21\<close> is encoded exactly: its bit
  string decodes to \<open>10^21\<close>.  Its negation is printed as \<open>-1e+21\<close>, where the sign is
  counted as a digit, and is encoded as \<open>-10^20\<close>: the exponent and mantissa fields of
  the two bit strings differ.
\<close>

theorem toBinary_sign_asymmetry:
  "toBinary (constructor 8 62) (10 ^ 21) False
     = Inr ''01100010010110001101011100100110101101110001011101111010100000000000000''
   \<and> toBinary (constructor 8 62) (- (10 ^ 21)) False
     = Inr ''11100000101011010111100011101011110001011010110001100010000000000000000''
   \<and> toDecimal (constructor 8 62)
       ''01100010010110001101011100100110101101110001011101111010100000000000000''
     = Finite (10 ^ 21)
   \<and> unexponentiate (- (10 ^ 21)) = Inr ''-100000000000000000000''"
  by code_simp

section \<open>The loop of the fractional bits\<close>

text \<open>
  C7.  For every fraction \<open>x\<close> in \<open>[0, 1)\<close> (with a decimal expansion of at most 1100
  places, as every double has) the loop of the fractional bits returns.  It emits at most
  \<open>totalBits + 1\<close> digits, each \<open>0\<close> or \<open>1\<close>, one for each iteration, and it runs exactly
  as long as its running remainder \<open>decN\<close> is positive and the counter allows it:
  \<open>decN\<close> is positive before each iteration made, and after the last one either
  \<open>totalBits + 1\<close> iterations are done or \<open>decN\<close> is not positive any more (it is zero
  or NaN).  The loop reads \<open>decN\<close> back from the printed digits of the doubled remainder;
  when the host prints \<open>x\<close> with all its digits, \<open>decN\<close> after \<open>i\<close> iterations is the
  fraction left of \<open>2^i * x\<close>, and the loop stops at the first \<open>i\<close> where nothing is left.
  (For other \<open>x\<close> the host prints fewer digits than the model and reads back another
  remainder; what is said of \<open>decN\<close> itself holds of both.)
\<close>

theorem decLoop_terminates:
  fixes x :: rat
  assumes "0 \<le> x" "x < 1" "hasPlaces j x" "j \<le> 1100"
  shows "\<exists>bits. decLoop f 0 (Some x) [] = Inr bits
      \<and> length bits \<le> totalBits f + 1
      \<and> (\<forall>b \<in> set bits. b = ''0'' \<or> b = ''1'')
      \<and> (\<forall>i < length bits. \<exists>d. decState i (Some x) = Inr d \<and> decGuard d)
      \<and> (length bits = totalBits f + 1
         \<or> (\<exists>d. decState (length bits) (Some x) = Inr d \<and> \<not> decGuard d))
      \<and> (printsExactly x \<longrightarrow>
           (\<forall>i < length bits. remainder i x \<noteq> 0)
           \<and> (length bits = totalBits f + 1 \<or> remainder (length bits) x = 0))"
proof -
  let ?fb = "fracBits (totalBits f + 1) x"
  let ?bits = "map (\<lambda>c. [c]) ?fb"
  have r: "decLoop f 0 (Some x) [] = Inr ?bits"
    using decLoop_Some[OF assms(3,4,1,2), of f 0 "[]"] by simp
  have b: "\<forall>b \<in> set ?bits. b = ''0'' \<or> b = ''1''"
    using fracBits_binary[OF assms(1,2), of "totalBits f + 1"] by auto
  have t: "length ?bits \<le> totalBits f + 1
     \<and> (\<forall>i < length ?bits. \<exists>d. decState i (Some x) = Inr d \<and> decGuard d)
     \<and> (length ?bits = totalBits f + 1
        \<or> (\<exists>d. decState (length ?bits) (Some x) = Inr d \<and> \<not> decGuard d))"
    using decLoop_trace[OF r] by simp
  have m: "(\<forall>i < length ?bits. remainder i x \<noteq> 0)
     \<and> (length ?bits = totalBits f + 1 \<or> remainder (length ?bits) x = 0)"
    using fracBits_length[OF assms(1,2), of "totalBits f + 1"] by simp
  show ?thesis using r b t m by blast
qed

theorem decLoop_terminates_witness:
  "(0::rat) \<le> 3 / 16 \<and> (3 / 16 :: rat) < 1 \<and> hasPlaces 4 (3 / 16) \<and> (4::nat) \<le> 1100
   \<and> printsExactly (3 / 16)
   \<and> decLoop (constructor 4 3) 0 (Some (3 / 16)) [] = Inr [''0'', ''0'', ''1'', ''1'']
   \<and> length [''0'', ''0'', ''1'', ''1''] \<le> totalBits (constructor 4 3) + 1
   \<and> decState 3 (Some (3 / 16)) = Inr (Some (1 / 2))
   \<and> decState 4 (Some (3 / 16)) = Inr None
   \<and> remainder 4 (3 / 16) = 0"
proof -
  have h: "hasPlaces 4 (3 / 16)" unfolding hasPlaces_def by (rule exI[of _ 1875]) simp
  have s: "printsExactly (3 / 16)" by (rule printsExactly_3_16)
  have e: "decLoop (constructor 4 3) 0 (Some (3 / 16)) [] = Inr [''0'', ''0'', ''1'', ''1'']"
    by code_simp
  have d: "decState 3 (Some (3 / 16)) = Inr (Some (1 / 2))" "decState 4 (Some (3 / 16)) = Inr None"
    by code_simp+
  have p: "(0::rat) \<le> 3 / 16" "(3 / 16 :: rat) < 1" "(4::nat) \<le> 1100" by simp_all
  have l: "length [''0'', ''0'', ''1'', ''1''] = 4" by simp
  from decLoop_terminates[OF p(1) p(2) h p(3), of "constructor 4 3"]
  have "4 \<le> totalBits (constructor 4 3) + 1
      \<and> (printsExactly (3 / 16) \<longrightarrow> (4 = totalBits (constructor 4 3) + 1 \<or> remainder 4 (3 / 16) = 0))"
    unfolding e by (simp only: sum.inject ex_simps simp_thms l) simp
  then show ?thesis using h s e d l by (simp add: fields_constructor)
qed

section \<open>Zero and overflow\<close>

text \<open>
  C2, as the claim states it, fails: with four exponent and three mantissa bits the
  encoder turns 0 into \<open>10111000\<close>, with the sign bit \<open>1\<close> and the exponent field
  \<open>0111\<close>, under both rounding settings.
\<close>

theorem toBinary_zero_counterexample:
  "toBinary (constructor 4 3) 0 False = Inr ''10111000''
   \<and> toBinary (constructor 4 3) 0 True = Inr ''10111000''"
  by code_simp

text \<open>
  C2, amended.  For every descriptor with at least one exponent bit, encoding 0 with
  either rounding setting returns a bit string of \<open>totalBits\<close> digits whose sign bit is
  \<open>1\<close> (zero is not greater than zero) and whose mantissa field is all zeros.
\<close>

theorem toBinary_zero:
  assumes "1 \<le> e"
  shows "\<exists>ex. toBinary (constructor e m) 0 rounding = Inr (''1'' @ ex @ replicate m CHR ''0'')
          \<and> length ex = e"
proof -
  have "length (CHR ''0'' # replicate (e - 1) CHR ''1'') = e" using assms by simp
  then show ?thesis using toBinary_zero_exact[OF assms, of m rounding] by auto
qed

theorem toBinary_zero_witness:
  "(1::nat) \<le> 4
   \<and> (\<exists>ex. toBinary (constructor 4 3) 0 True = Inr (''1'' @ ex @ ''000'') \<and> length ex = 4)"
proof -
  have r: "replicate 3 CHR ''0'' = ''000''" by (simp add: numeral_eq_Suc)
  show ?thesis using toBinary_zero[of 4 3 True] unfolding r by simp
qed

text \<open>
  C3, as the claim states it, fails: with four exponent and three mantissa bits the
  largest magnitude tested by the encoder is 127; 128 is encoded as \<open>00000000\<close>, which
  decodes to 0, and 127.5 as \<open>01101000\<close>, which decodes to 64.
\<close>

theorem toBinary_overflow_counterexample:
  "\<bar>128 :: rat\<bar> > maxAbs (constructor 4 3)
   \<and> toBinary (constructor 4 3) 128 False = Inr ''00000000''
   \<and> toDecimal (constructor 4 3) ''00000000'' = Finite 0
   \<and> \<bar>255 / 2 :: rat\<bar> > maxAbs (constructor 4 3)
   \<and> toBinary (constructor 4 3) (255 / 2) False = Inr ''01101000''
   \<and> toDecimal (constructor 4 3) ''01101000'' = Finite 64"
  by code_simp

text \<open>
  C3, amended.  For every descriptor with at least one exponent and one mantissa bit,
  and every \<open>v\<close> that is printed in plain notation (\<open>|v| < 10^21\<close>, with at most 1100
  decimal places) or is a positive integer, whose magnitude exceeds \<open>maxAbs\<close> and is at
  least \<open>2^(bias + 1)\<close>, the encoder
  returns the sign bit followed by an exponent field of ones and a mantissa field of
  zeros, and the decoder maps that string to the infinity of the sign of \<open>v\<close>.
\<close>

theorem toBinary_overflow_infinity:
  fixes v :: rat
  assumes "1 \<le> e" "1 \<le> m" "hasPlaces j v" "j \<le> 1100"
    and "\<bar>v\<bar> < 10 ^ 21 \<or> (0 \<le> v \<and> (\<exists>n :: int. v = of_int n))"
    and "\<bar>v\<bar> > maxAbs (constructor e m)" "2 ^ (2 ^ (e - 1)) \<le> \<bar>v\<bar>"
  shows "toBinary (constructor e m) v rounding
       = Inr ((if 0 < v then ''0'' else ''1'') @ replicate e CHR ''1'' @ replicate m CHR ''0'')
     \<and> toDecimal (constructor e m)
         ((if 0 < v then ''0'' else ''1'') @ replicate e CHR ''1'' @ replicate m CHR ''0'')
       = (if 0 < v then PosInfinity else NegInfinity)"
proof -
  have 1: "toBinary (constructor e m) v rounding
       = Inr ((if 0 < v then ''0'' else ''1'') @ replicate e CHR ''1'' @ replicate m CHR ''0'')"
    using toBinary_overflow[OF assms(1,3,4,5,6,7)] .
  have 2: "toDecimal (constructor e m)
         ((if 0 < v then ''0'' else ''1'') @ replicate e CHR ''1'' @ replicate m CHR ''0'')
       = (if 0 < v then PosInfinity else NegInfinity)"
    using toDecimal_infinity_pattern[OF assms(1,2), of "CHR ''0''"]
      toDecimal_infinity_pattern[OF assms(1,2), of "CHR ''1''"] by simp
  show ?thesis using 1 2 by simp
qed

theorem toBinary_overflow_infinity_witness:
  "(1::nat) \<le> 4 \<and> (1::nat) \<le> 3 \<and> hasPlaces 1 (- 601 / 2) \<and> (1::nat) \<le> 1100
   \<and> \<bar>- 601 / 2 :: rat\<bar> < 10 ^ 21 \<and> \<bar>- 601 / 2 :: rat\<bar> > maxAbs (constructor 4 3)
   \<and> (2::rat) ^ (2 ^ (4 - 1)) \<le> \<bar>- 601 / 2\<bar>
   \<and> toBinary (constructor 4 3) (- 601 / 2) True = Inr ''11111000''
   \<and> toDecimal (constructor 4 3) ''11111000'' = NegInfinity"
proof -
  have h: "hasPlaces 1 (- 601 / 2)" unfolding hasPlaces_def by (rule exI[of _ "- 3005"]) simp
  have p: "(1::nat) \<le> 4" "(1::nat) \<le> 3" "(1::nat) \<le> 1100" "\<bar>- 601 / 2 :: rat\<bar> < 10 ^ 21"
    "\<bar>- 601 / 2 :: rat\<bar> > maxAbs (constructor 4 3)" "(2::rat) ^ (2 ^ (4 - 1)) \<le> \<bar>- 601 / 2\<bar>"
    by (simp_all add: maxAbs_constructor)
  have q: "\<bar>- 601 / 2 :: rat\<bar> < 10 ^ 21
      \<or> (0 \<le> (- 601 / 2 :: rat) \<and> (\<exists>n :: int. (- 601 / 2 :: rat) = of_int n))"
    using p(4) by (rule disjI1)
  have s: "(if 0 < (- 601 / 2 :: rat) then ''0'' else ''1'') @ replicate 4 CHR ''1'' @ replicate 3 CHR ''0''
     = ''11111000''" by (simp add: numeral_eq_Suc)
  show ?thesis
    using toBinary_overflow_infinity[OF p(1) p(2) h p(3) q p(5) p(6), of True] h p
    unfolding s by simp
qed


section \<open>The round trip\<close>




end
